theory Spec2Isabelle
  imports Complex_Main "HOL-Library.Sublist"
begin

section \<open>Data model of \<^verbatim>\<open>src/generator.py\<close>\<close>

text \<open>
  The exceptions the generator can meet: \<^verbatim>\<open>random.randint\<close> raises ValueError on an
  empty range, true division raises ZeroDivisionError, and a dictionary lookup of a
  missing key raises KeyError.
\<close>

datatype error = ValueError | ZeroDivisionError | KeyError

text \<open>
  The attribute dictionary of one node of the \<^verbatim>\<open>networkx.DiGraph\<close>. Each key may be
  absent (\<open>None\<close>), which is what \<^verbatim>\<open>attributes.get(...)\<close> returns then. Python floats
  are idealised as reals; the integer sentinel \<^verbatim>\<open>-1\<close> is the real \<open>-1\<close>.
\<close>

record node_attrs =
  node_type :: "int option"
  gate_type :: "int option"
  node_probability :: "real option"
  in_degree :: "int option"
  out_degree :: "int option"

text \<open>The dictionary \<^verbatim>\<open>graph.graph\<close> of graph-level attributes.\<close>

record graph_attrs =
  model_id :: "int option"
  creation_date :: "string option"
  num_nodes :: "int option"
  num_top_nodes :: "int option"
  num_intermediate_nodes :: "int option"
  num_leaf_nodes :: "int option"
  num_and_gates :: "int option"
  num_or_gates :: "int option"

text \<open>
  A \<^verbatim>\<open>networkx.DiGraph\<close>: the nodes in insertion order with their attributes, the
  directed edges \<open>(u, v)\<close> in insertion order (no parallel edges), and the graph
  attributes.
\<close>

record digraph =
  nodes :: "(int \<times> node_attrs) list"
  edges :: "(int \<times> int) list"
  attrs :: graph_attrs

definition empty_graph_attrs :: graph_attrs where
  "empty_graph_attrs = \<lparr>model_id = None, creation_date = None, num_nodes = None,
     num_top_nodes = None, num_intermediate_nodes = None, num_leaf_nodes = None,
     num_and_gates = None, num_or_gates = None\<rparr>"

definition DiGraph :: digraph where
  "DiGraph = \<lparr>nodes = [], edges = [], attrs = empty_graph_attrs\<rparr>"

definition empty_node_attrs :: node_attrs where
  "empty_node_attrs = \<lparr>node_type = None, gate_type = None, node_probability = None,
     in_degree = None, out_degree = None\<rparr>"

definition has_node :: "digraph \<Rightarrow> int \<Rightarrow> bool" where
  "has_node g n = (n \<in> set (map fst (nodes g)))"

text \<open>
  \<^verbatim>\<open>graph.add_node(n, node_type=t, gate_type=gt, node_probability=p)\<close>: a new node is
  appended with these three attributes; on a node that exists the three attributes are
  overwritten and the others kept.
\<close>

definition add_node :: "int \<Rightarrow> int \<Rightarrow> int \<Rightarrow> real \<Rightarrow> digraph \<Rightarrow> digraph" where
  "add_node n t gt p g =
     (if has_node g n
      then g\<lparr>nodes := map (\<lambda>(m, a). if m = n
                 then (m, a\<lparr>node_type := Some t, gate_type := Some gt, node_probability := Some p\<rparr>)
                 else (m, a)) (nodes g)\<rparr>
      else g\<lparr>nodes := nodes g @
                 [(n, empty_node_attrs\<lparr>node_type := Some t, gate_type := Some gt,
                                       node_probability := Some p\<rparr>)]\<rparr>)"

text \<open>\<^verbatim>\<open>graph.add_edge(u, v)\<close> creates missing end points without attributes.\<close>

definition ensure_node :: "int \<Rightarrow> digraph \<Rightarrow> digraph" where
  "ensure_node n g = (if has_node g n then g else g\<lparr>nodes := nodes g @ [(n, empty_node_attrs)]\<rparr>)"

definition add_edge :: "int \<Rightarrow> int \<Rightarrow> digraph \<Rightarrow> digraph" where
  "add_edge u v g =
     (let g1 = ensure_node u g; g2 = ensure_node v g1
      in if (u, v) \<in> set (edges g2) then g2 else g2\<lparr>edges := edges g2 @ [(u, v)]\<rparr>)"

text \<open>The constructor parameters that the generator never changes.\<close>

record config =
  max_num_children :: int
  max_depth :: int
  min_children :: int
  num_graphs :: int

text \<open>A message printed by \<^verbatim>\<open>read_data_config\<close>.\<close>

datatype message =
    Value_error_while_processing_pair string
  | File_not_found_creating_defaults

text \<open>
  The mutable state: the attributes of the generator object that change, and the parts
  of the environment it reads and writes. \<open>tape\<close> is the random source: each call of
  the \<^verbatim>\<open>random\<close> module consumes one raw number (an exhausted tape reads 0).
  \<open>data_config\<close> is the content of \<^verbatim>\<open>data_config.txt\<close>, \<open>None\<close> when the file does
  not exist. \<open>model_files\<close> are the exported graphs with their model number, in the
  order written. \<open>stdout\<close> collects what is printed and \<open>today\<close> is the
  current date.
\<close>

record gen =
  graph :: digraph
  node_counter :: int
  model_counter :: int
  tape :: "nat list"
  data_config :: "string option"
  model_files :: "(int \<times> digraph) list"
  stdout :: "message list"
  today :: string

section \<open>The random source\<close>

definition draw :: "gen \<Rightarrow> nat \<times> gen" where
  "draw s = (case tape s of [] \<Rightarrow> (0, s) | n # t \<Rightarrow> (n, s\<lparr>tape := t\<rparr>))"

text \<open>\<^verbatim>\<open>random.choice([1, 2])\<close>: one of the two elements.\<close>

definition random_choice_1_2 :: "gen \<Rightarrow> int \<times> gen" where
  "random_choice_1_2 s = (let (n, s1) = draw s in ([1, 2] ! (n mod 2), s1))"

text \<open>\<^verbatim>\<open>random.randint(a, b)\<close>: an integer of \<open>[a, b]\<close>, ValueError when the range is empty.\<close>

definition randint :: "int \<Rightarrow> int \<Rightarrow> gen \<Rightarrow> (error + int) \<times> gen" where
  "randint a b s =
     (if b < a then (Inl ValueError, s)
      else let (n, s1) = draw s in (Inr (a + int (n mod nat (b - a + 1))), s1))"

text \<open>\<^verbatim>\<open>random.random()\<close>: a multiple of \<open>2^-53\<close> in \<open>[0, 1)\<close>.\<close>

definition random_random :: "gen \<Rightarrow> real \<times> gen" where
  "random_random s = (let (n, s1) = draw s in (real (n mod 2 ^ 53) / 2 ^ 53, s1))"

text \<open>\<^verbatim>\<open>random.uniform(a, b)\<close> is \<^verbatim>\<open>a + (b - a) * random()\<close>.\<close>

definition random_uniform :: "real \<Rightarrow> real \<Rightarrow> gen \<Rightarrow> real \<times> gen" where
  "random_uniform a b s = (let (r, s1) = random_random s in (a + (b - a) * r, s1))"

section \<open>Node factory\<close>

definition biased_random_low_number :: "gen \<Rightarrow> real \<times> gen" where
  "biased_random_low_number s =
     (let (number, s1) = random_uniform 0 1 s;
          power = (10::nat)
      in (number ^ power, s1))"

definition create_node :: "int \<Rightarrow> int option \<Rightarrow> real \<Rightarrow> gen \<Rightarrow> int \<times> gen" where
  "create_node ntype gtype nprob s =
     (let (gtype1, s1) =
            (case gtype of
               None \<Rightarrow> (if ntype = 2 then (0, s) else random_choice_1_2 s)
             | Some g \<Rightarrow> (g, s));
          (nprob1, s2) = (if ntype = 2 then biased_random_low_number s1 else (nprob, s1));
          node_id = node_counter s2 + 1;
          s3 = s2\<lparr>graph := add_node node_id ntype gtype1 nprob1 (graph s2)\<rparr>;
          s4 = s3\<lparr>node_counter := node_counter s3 + 1\<rparr>
      in (node_id, s4))"

definition create_edge :: "int \<Rightarrow> int \<Rightarrow> gen \<Rightarrow> gen" where
  "create_edge child_node_id parent_node_id s =
     s\<lparr>graph := add_edge child_node_id parent_node_id (graph s)\<rparr>"

section \<open>Tree builder\<close>

text \<open>Python's true division of two integers.\<close>

definition truediv :: "int \<Rightarrow> int \<Rightarrow> error + real" where
  "truediv a b = (if b = 0 then Inl ZeroDivisionError else Inr (real_of_int a / real_of_int b))"

text \<open>
  Lines 97 to 100 of \<^verbatim>\<open>create_tree\<close>: whether the next child is intermediate. In
  \<^verbatim>\<open>random.random() < (1 - current_depth / self.max_depth)\<close> the left operand is
  evaluated first, so the draw is consumed before the division can fail.
\<close>

definition is_intermediate_of :: "config \<Rightarrow> int \<Rightarrow> gen \<Rightarrow> (error + bool) \<times> gen" where
  "is_intermediate_of cfg current_depth s =
     (if current_depth = max_depth cfg - 1 then (Inr False, s)
      else let (r, s1) = random_random s
           in case truediv current_depth (max_depth cfg) of
                Inl e \<Rightarrow> (Inl e, s1)
              | Inr q \<Rightarrow> (Inr (r < 1 - q), s1))"

text \<open>
  \<^verbatim>\<open>create_tree\<close> and its \<^verbatim>\<open>for _ in range(num_children)\<close> loop, which has
  \<open>k\<close> iterations left. The call \<^verbatim>\<open>self.create_node(node_type, current_depth + 1)\<close>
  passes \<^verbatim>\<open>current_depth + 1\<close> as the second positional parameter, which is
  \<^verbatim>\<open>gate_type\<close>.
\<close>

function create_tree :: "config \<Rightarrow> int \<Rightarrow> int \<Rightarrow> gen \<Rightarrow> (error + unit) \<times> gen"
  and children_loop :: "config \<Rightarrow> int \<Rightarrow> int \<Rightarrow> nat \<Rightarrow> gen \<Rightarrow> (error + unit) \<times> gen"
where
  "create_tree cfg parent_node_id current_depth s =
     (if current_depth \<ge> max_depth cfg then (Inr (), s)
      else case randint (min_children cfg) (max_num_children cfg) s of
             (Inl e, s1) \<Rightarrow> (Inl e, s1)
           | (Inr num_children, s1) \<Rightarrow>
               children_loop cfg parent_node_id current_depth (nat num_children) s1)"
| "children_loop cfg parent_node_id current_depth 0 s = (Inr (), s)"
| "children_loop cfg parent_node_id current_depth (Suc k) s =
     (case is_intermediate_of cfg current_depth s of
        (Inl e, s1) \<Rightarrow> (Inl e, s1)
      | (Inr is_intermediate, s1) \<Rightarrow>
          (let ntype = (if is_intermediate then 1 else 2);
               (child_node_id, s2) = create_node ntype (Some (current_depth + 1)) (- 1) s1;
               s3 = create_edge child_node_id parent_node_id s2
           in if ntype = 1
              then (case create_tree cfg child_node_id (current_depth + 1) s3 of
                      (Inl e, s4) \<Rightarrow> (Inl e, s4)
                    | (Inr u, s4) \<Rightarrow> children_loop cfg parent_node_id current_depth k s4)
              else children_loop cfg parent_node_id current_depth k s3))"
  by pat_completeness auto
termination
  by (relation "(\<lambda>x. case x of
                   Inl (cfg, p, d, s) \<Rightarrow> 2 * nat (max_depth cfg - d)
                 | Inr (cfg, p, d, k, s) \<Rightarrow> 2 * nat (max_depth cfg - d) - 1)
               <*mlex*>
               measure (\<lambda>x. case x of Inl (cfg, p, d, s) \<Rightarrow> 0 | Inr (cfg, p, d, k, s) \<Rightarrow> k)")
     (auto simp: wf_mlex mlex_less mlex_leq)

declare create_tree.simps [simp del] children_loop.simps(2) [simp del]

section \<open>Graph assembler\<close>

text \<open>
  The dictionaries \<^verbatim>\<open>{0: c0, 1: c1, 2: c2}\<close> of \<^verbatim>\<open>count_nodes_and_gates\<close>, as
  triples. \<open>bump\<close> is \<^verbatim>\<open>if key in counts: counts[key] += 1\<close>, where the key comes
  from \<^verbatim>\<open>attributes.get\<close> and may be absent.
\<close>

type_synonym counts = "int \<times> int \<times> int"

definition bump :: "int option \<Rightarrow> counts \<Rightarrow> counts" where
  "bump key c =
     (case key of
        None \<Rightarrow> c
      | Some t \<Rightarrow> (case c of (c0, c1, c2) \<Rightarrow>
          if t = 0 then (c0 + 1, c1, c2)
          else if t = 1 then (c0, c1 + 1, c2)
          else if t = 2 then (c0, c1, c2 + 1)
          else c))"

definition count_nodes_and_gates :: "digraph \<Rightarrow> counts \<times> counts" where
  "count_nodes_and_gates g =
     fold (\<lambda>(n, a) (node_counts, gate_counts).
             (bump (node_type a) node_counts, bump (gate_type a) gate_counts))
          (nodes g) ((0, 0, 0), (0, 0, 0))"

definition add_meta_data :: "gen \<Rightarrow> gen" where
  "add_meta_data s =
     (let (node_counts, gate_counts) = count_nodes_and_gates (graph s);
          (n0, n1, n2) = node_counts;
          (g0, g1, g2) = gate_counts
      in s\<lparr>graph := (graph s)\<lparr>attrs := (attrs (graph s))
            \<lparr>model_id := Some (model_counter s + 1),
             creation_date := Some (today s),
             num_nodes := Some (node_counter s),
             num_top_nodes := Some n0,
             num_intermediate_nodes := Some n1,
             num_leaf_nodes := Some n2,
             num_and_gates := Some g1,
             num_or_gates := Some g2\<rparr>\<rparr>\<rparr>)"

text \<open>
  \<^verbatim>\<open>graph.in_degree(n)\<close> and \<^verbatim>\<open>graph.out_degree(n)\<close>: the number of edges that
  end, respectively start, at \<open>n\<close>.
\<close>

definition in_degree_of :: "digraph \<Rightarrow> int \<Rightarrow> int" where
  "in_degree_of g n = int (length (filter (\<lambda>e. snd e = n) (edges g)))"

definition out_degree_of :: "digraph \<Rightarrow> int \<Rightarrow> int" where
  "out_degree_of g n = int (length (filter (\<lambda>e. fst e = n) (edges g)))"

definition calculate_in_and_out_degrees :: "digraph \<Rightarrow> digraph" where
  "calculate_in_and_out_degrees g =
     g\<lparr>nodes := map (\<lambda>(n, a). (n, a\<lparr>in_degree := Some (in_degree_of g n),
                                     out_degree := Some (out_degree_of g n)\<rparr>)) (nodes g)\<rparr>"

definition calculate_node_features :: "gen \<Rightarrow> gen" where
  "calculate_node_features s = s\<lparr>graph := calculate_in_and_out_degrees (graph s)\<rparr>"

section \<open>The counters file\<close>

text \<open>
  Strings are lists of characters with code points below 256. \<open>is_space\<close> is
  \<^verbatim>\<open>str.isspace\<close> on that range, \<open>strip\<close> is \<^verbatim>\<open>str.strip()\<close> and \<open>split_on c\<close> is
  \<^verbatim>\<open>str.split(c)\<close> for a separator of one character.
\<close>

definition is_space :: "char \<Rightarrow> bool" where
  "is_space c = ((of_char c :: nat) \<in> {9, 10, 11, 12, 13, 28, 29, 30, 31, 32, 133, 160})"

definition strip :: "string \<Rightarrow> string" where
  "strip s = rev (dropWhile is_space (rev (dropWhile is_space s)))"

fun split_on :: "char \<Rightarrow> string \<Rightarrow> string list" where
  "split_on c [] = [[]]"
| "split_on c (x # xs) =
     (if x = c then [] # split_on c xs
      else (case split_on c xs of [] \<Rightarrow> [[x]] | w # ws \<Rightarrow> (x # w) # ws))"

text \<open>
  \<^verbatim>\<open>int(s)\<close> on a string: surrounding white space is dropped, then an optional sign,
  then decimal digits in which single underscores may separate digits. \<open>None\<close> stands
  for the ValueError. The limit on the number of digits that recent interpreters apply
  is not modelled.
\<close>

definition is_digit :: "char \<Rightarrow> bool" where
  "is_digit c = (48 \<le> (of_char c :: nat) \<and> (of_char c :: nat) \<le> 57)"

fun digit_groups :: "string \<Rightarrow> bool" where
  "digit_groups [] = False"
| "digit_groups [c] = is_digit c"
| "digit_groups (c # d # r) =
     (is_digit c \<and> (if d = CHR ''_'' then digit_groups r else digit_groups (d # r)))"

definition nat_of_digits :: "string \<Rightarrow> nat" where
  "nat_of_digits ds = foldl (\<lambda>a c. 10 * a + (of_char c - 48)) 0 ds"

definition int_of_str :: "string \<Rightarrow> int option" where
  "int_of_str s =
     (let t = strip s;
          (neg, body) = (case t of
                           [] \<Rightarrow> (False, t)
                         | c # r \<Rightarrow> if c = CHR ''-'' then (True, r)
                                    else if c = CHR ''+'' then (False, r)
                                    else (False, t))
      in if digit_groups body
         then (let n = int (nat_of_digits (filter (\<lambda>c. c \<noteq> CHR ''_'') body))
               in Some (if neg then - n else n))
         else None)"

text \<open>\<^verbatim>\<open>str(n)\<close> on an integer.\<close>

fun str_nat :: "nat \<Rightarrow> string" where
  "str_nat n =
     (if n < 10 then [''0123456789'' ! n]
      else str_nat (n div 10) @ [''0123456789'' ! (n mod 10)])"

declare str_nat.simps [simp del]

definition str_int :: "int \<Rightarrow> string" where
  "str_int i = (if i < 0 then CHR ''-'' # str_nat (nat (- i)) else str_nat (nat i))"

text \<open>
  The body of the inner \<^verbatim>\<open>try\<close> of \<^verbatim>\<open>read_data_config\<close>:
  \<^verbatim>\<open>key, value = pair.split('=')\<close> raises ValueError unless there are exactly two
  parts, and \<^verbatim>\<open>int(value.strip())\<close> raises ValueError on a string that is no integer.
\<close>

definition parse_pair :: "string \<Rightarrow> error + (string \<times> int)" where
  "parse_pair pair =
     (case split_on CHR ''='' pair of
        [key, val] \<Rightarrow>
          (case int_of_str (strip val) of
             None \<Rightarrow> Inl ValueError
           | Some n \<Rightarrow> Inr (strip key, n))
      | _ \<Rightarrow> Inl ValueError)"

text \<open>
  The loop over the pairs: a pair that raises is reported on standard output and the
  loop goes on with the next one.
\<close>

fun read_pairs ::
  "string list \<Rightarrow> (string \<rightharpoonup> int) \<Rightarrow> message list \<Rightarrow> (string \<rightharpoonup> int) \<times> message list" where
  "read_pairs [] data out = (data, out)"
| "read_pairs (pair # ps) data out =
     (case parse_pair pair of
        Inr (key, n) \<Rightarrow> read_pairs ps (data(key \<mapsto> n)) out
      | Inl e \<Rightarrow> read_pairs ps data (out @ [Value_error_while_processing_pair pair]))"

definition default_config :: string where
  "default_config = ''num_models=0;num_nodes=0''"

definition read_data_config :: "gen \<Rightarrow> (string \<rightharpoonup> int) \<times> gen" where
  "read_data_config s =
     (case data_config s of
        Some raw \<Rightarrow>
          (let content = strip raw;
               (data, out) = read_pairs (split_on CHR '';'' content) Map.empty (stdout s)
           in (data, s\<lparr>stdout := out\<rparr>))
      | None \<Rightarrow>
          ([''num_models'' \<mapsto> 0, ''num_nodes'' \<mapsto> 0],
           s\<lparr>stdout := stdout s @ [File_not_found_creating_defaults],
             data_config := Some default_config\<rparr>))"

definition write_data_config :: "gen \<Rightarrow> gen" where
  "write_data_config s =
     s\<lparr>data_config := Some (''num_models='' @ str_int (model_counter s + 1) @ '';'' @
                             ''num_nodes='' @ str_int (node_counter s))\<rparr>"

section \<open>One graph, and the run\<close>

definition reset :: "gen \<Rightarrow> (error + unit) \<times> gen" where
  "reset s =
     (let s1 = s\<lparr>graph := DiGraph\<rparr>;
          (data, s2) = read_data_config s1
      in case data ''num_nodes'' of
           None \<Rightarrow> (Inl KeyError, s2)
         | Some n \<Rightarrow>
             (let s3 = s2\<lparr>node_counter := n\<rparr>
              in case data ''num_models'' of
                   None \<Rightarrow> (Inl KeyError, s3)
                 | Some m \<Rightarrow> (Inr (), s3\<lparr>model_counter := m\<rparr>)))"

text \<open>
  \<^verbatim>\<open>save_model\<close> writes the counters and exports the graph under its model number.
  Drawing the graph and printing its nodes (the flags \<^verbatim>\<open>visualization\<close> and
  \<^verbatim>\<open>print_out\<close>) change nothing of the state modelled here and are left out.
\<close>

definition save_model :: "gen \<Rightarrow> gen" where
  "save_model s =
     (let s1 = write_data_config s;
          model_number = model_counter s1 + 1
      in s1\<lparr>model_files := model_files s1 @ [(model_number, graph s1)]\<rparr>)"

definition generate_subgraph :: "config \<Rightarrow> gen \<Rightarrow> (error + unit) \<times> gen" where
  "generate_subgraph cfg s =
     (let (top_event_node_id, s1) = create_node 0 None (- 1) s
      in case create_tree cfg top_event_node_id 0 s1 of
           (Inl e, s2) \<Rightarrow> (Inl e, s2)
         | (Inr u, s2) \<Rightarrow>
             (let s3 = add_meta_data s2;
                  s4 = calculate_node_features s3;
                  s5 = save_model s4
              in (Inr (), s5)))"

text \<open>The loop \<^verbatim>\<open>for _ in range(0, self.num_graphs)\<close> of the constructor.\<close>

fun graphs_loop :: "nat \<Rightarrow> config \<Rightarrow> gen \<Rightarrow> (error + unit) \<times> gen" where
  "graphs_loop 0 cfg s = (Inr (), s)"
| "graphs_loop (Suc k) cfg s =
     (case reset s of
        (Inl e, s1) \<Rightarrow> (Inl e, s1)
      | (Inr u, s1) \<Rightarrow>
          (case generate_subgraph cfg s1 of
             (Inl e, s2) \<Rightarrow> (Inl e, s2)
           | (Inr u, s2) \<Rightarrow> graphs_loop k cfg s2))"

definition FaultTreeDatasetGenerator :: "config \<Rightarrow> gen \<Rightarrow> (error + unit) \<times> gen" where
  "FaultTreeDatasetGenerator cfg s = graphs_loop (nat (num_graphs cfg)) cfg s"

text \<open>
  The world before the constructor runs: a random tape, the counters file (if any) and
  the date. The generator's own attributes are not yet assigned; \<open>reset\<close> sets them
  before they are read.
\<close>

definition world :: "nat list \<Rightarrow> string option \<Rightarrow> string \<Rightarrow> gen" where
  "world t f d =
     \<lparr>graph = DiGraph, node_counter = 0, model_counter = 0, tape = t, data_config = f,
      model_files = [], stdout = [], today = d\<rparr>"

text \<open>
  A configuration for the scenario of the specification
  (\<^verbatim>\<open>max_num_children=2, min_children=2, max_depth=1\<close>) and the parameters of
  \<^verbatim>\<open>main.py\<close>.
\<close>

definition cfg_2_2_1 :: config where
  "cfg_2_2_1 = \<lparr>max_num_children = 2, max_depth = 1, min_children = 2, num_graphs = 1\<rparr>"

definition cfg_main :: config where
  "cfg_main = \<lparr>max_num_children = 3, max_depth = 4, min_children = 2, num_graphs = 1\<rparr>"

section \<open>Notions used to state the properties\<close>

text \<open>
  The depth of a node: the number of edges on the way from the node to a node without
  outgoing edge, following at each node its (first) outgoing edge. The root has depth 0.
\<close>

inductive node_depth :: "digraph \<Rightarrow> int \<Rightarrow> nat \<Rightarrow> bool" for g :: digraph where
  root: "map_of (edges g) v = None \<Longrightarrow> node_depth g v 0"
| child: "map_of (edges g) v = Some p \<Longrightarrow> node_depth g p k \<Longrightarrow> node_depth g v (Suc k)"

text \<open>
  What a run of \<^verbatim>\<open>create_tree\<close> may return: success, or the ValueError of
  \<^verbatim>\<open>random.randint\<close> on an empty range.
\<close>

definition res_ok :: "config \<Rightarrow> error + unit \<Rightarrow> bool" where
  "res_ok cfg r = (r = Inr () \<or> (r = Inl ValueError \<and> max_num_children cfg < min_children cfg))"

text \<open>
  The attributes of a node of a tree that was started at counter \<open>N\<close>: the first node
  \<open>N + 1\<close> is the TOP node, every other node is INTERMEDIATE or LEAF; a LEAF carries a
  probability of \<open>[0, 1)\<close>, every other node the sentinel \<open>- 1\<close>.
\<close>

definition node_ok :: "int \<Rightarrow> int \<Rightarrow> node_attrs \<Rightarrow> bool" where
  "node_ok N n a =
     (if n = N + 1 then node_type a = Some 0 \<and> node_probability a = Some (- 1)
      else (node_type a = Some 1 \<and> node_probability a = Some (- 1)) \<or>
           (node_type a = Some 2 \<and> (\<exists>x. node_probability a = Some x \<and> 0 \<le> x \<and> x < 1)))"

text \<open>
  The shape of the graph while a tree that was started at counter \<open>N\<close> is built: the
  nodes are \<open>N + 1, ..., node_counter\<close> in this order, every node but the first has
  exactly one outgoing edge, the edges are in the order of their sources, and every edge
  leads to a node that was created earlier.
\<close>

definition struct_inv :: "int \<Rightarrow> gen \<Rightarrow> bool" where
  "struct_inv N s =
     (map fst (nodes (graph s)) = [N + 1..node_counter s] \<and>
      map fst (edges (graph s)) = [N + 2..node_counter s] \<and>
      N + 1 \<le> node_counter s \<and>
      (\<forall>(u, v) \<in> set (edges (graph s)). N + 1 \<le> v \<and> v < u) \<and>
      (\<forall>(n, a) \<in> set (nodes (graph s)). node_ok N n a))"

definition depth_inv :: "config \<Rightarrow> int \<Rightarrow> gen \<Rightarrow> bool" where
  "depth_inv cfg N s =
     (\<forall>v \<in> {N + 1..node_counter s}. \<exists>k. node_depth (graph s) v k \<and> int k \<le> max_depth cfg)"

text \<open>What building a subtree leaves alone: the depths of the nodes there are, and everything
  but the graph, the counter and the random tape.\<close>

definition grows :: "gen \<Rightarrow> gen \<Rightarrow> bool" where
  "grows s s' =
     (node_counter s \<le> node_counter s' \<and>
      (\<forall>v k. v \<le> node_counter s \<longrightarrow> node_depth (graph s) v k \<longrightarrow> node_depth (graph s') v k) \<and>
      prefix (nodes (graph s)) (nodes (graph s')) \<and>
      prefix (edges (graph s)) (edges (graph s')) \<and>
      attrs (graph s') = attrs (graph s) \<and>
      model_counter s' = model_counter s \<and> data_config s' = data_config s \<and>
      model_files s' = model_files s \<and> stdout s' = stdout s \<and> today s' = today s)"

text \<open>What a call of \<^verbatim>\<open>create_tree\<close> on the node \<open>p\<close> at depth \<open>d\<close> needs and what
  it establishes.\<close>

definition tree_pre :: "config \<Rightarrow> int \<Rightarrow> int \<Rightarrow> int \<Rightarrow> gen \<Rightarrow> bool" where
  "tree_pre cfg N p d s =
     (struct_inv N s \<and> depth_inv cfg N s \<and> N + 1 \<le> p \<and> p \<le> node_counter s \<and>
      0 \<le> d \<and> d \<le> max_depth cfg \<and> node_depth (graph s) p (nat d))"

definition tree_post :: "config \<Rightarrow> int \<Rightarrow> gen \<Rightarrow> gen \<Rightarrow> bool" where
  "tree_post cfg N s s' = (struct_inv N s' \<and> depth_inv cfg N s' \<and> grows s s')"

text \<open>The last three steps of \<^verbatim>\<open>generate_subgraph\<close>.\<close>

definition finish :: "gen \<Rightarrow> gen" where
  "finish s = save_model (calculate_node_features (add_meta_data s))"

text \<open>The number of nodes of a graph with a given node type, and with a given gate type.\<close>

definition tally_node_type :: "int \<Rightarrow> digraph \<Rightarrow> int" where
  "tally_node_type t g = int (length (filter (\<lambda>(n, a). node_type a = Some t) (nodes g)))"

definition tally_gate_type :: "int \<Rightarrow> digraph \<Rightarrow> int" where
  "tally_gate_type t g = int (length (filter (\<lambda>(n, a). gate_type a = Some t) (nodes g)))"

text \<open>
  The configurations that the specification calls valid (the code itself validates
  nothing): \<^verbatim>\<open>max_num_children >= min_children >= 1\<close>, \<^verbatim>\<open>max_depth >= 0\<close> and
  \<^verbatim>\<open>num_graphs >= 1\<close>.
\<close>

definition valid_config :: "config \<Rightarrow> bool" where
  "valid_config cfg =
     (1 \<le> min_children cfg \<and> min_children cfg \<le> max_num_children cfg \<and>
      0 \<le> max_depth cfg \<and> 1 \<le> num_graphs cfg)"

definition cfg_depth_0 :: config where
  "cfg_depth_0 = \<lparr>max_num_children = 3, max_depth = 0, min_children = 2, num_graphs = 1\<rparr>"

text \<open>
  The relation between the meta data that the specification states:
  \<^verbatim>\<open>num_intermediate_nodes + num_leaf_nodes + 1 == num_nodes\<close> and
  \<^verbatim>\<open>num_and_gates + num_or_gates == num_intermediate_nodes + 1\<close>.
\<close>

definition meta_data_claim :: "graph_attrs \<Rightarrow> bool" where
  "meta_data_claim a =
     (case (num_intermediate_nodes a, num_leaf_nodes a, num_nodes a, num_and_gates a,
            num_or_gates a) of
        (Some i, Some l, Some n, Some x, Some y) \<Rightarrow> i + l + 1 = n \<and> x + y = i + 1
      | _ \<Rightarrow> False)"

text \<open>Two configurations that the specification calls invalid.\<close>

definition cfg_negative_depth :: config where
  "cfg_negative_depth =
     \<lparr>max_num_children = 2, max_depth = - 1, min_children = 3, num_graphs = 1\<rparr>"

definition cfg_min_above_max :: config where
  "cfg_min_above_max = \<lparr>max_num_children = 2, max_depth = 1, min_children = 3, num_graphs = 1\<rparr>"

text \<open>
  The identifiers that a run assigned, in the order of creation: those of the nodes of
  the graphs exported during the run and, when the run was aborted, those of the graph
  under construction.
\<close>

definition node_ids :: "digraph \<Rightarrow> int list" where
  "node_ids g = map fst (nodes g)"

definition run_node_ids :: "gen \<Rightarrow> (error + unit) \<times> gen \<Rightarrow> int list" where
  "run_node_ids s out =
     concat (map (\<lambda>(m, g). node_ids g) (drop (length (model_files s)) (model_files (snd out)))) @
     (case fst out of Inl e \<Rightarrow> node_ids (graph (snd out)) | Inr u \<Rightarrow> [])"

(*DEFS-END*)

section \<open>Evaluation\<close>

lemmas rand_defs = draw_def random_choice_1_2_def randint_def random_random_def random_uniform_def
  biased_random_low_number_def

lemmas graph_defs = DiGraph_def empty_graph_attrs_def empty_node_attrs_def has_node_def add_node_def
  ensure_node_def add_edge_def

lemmas build_defs = create_node_def create_edge_def truediv_def is_intermediate_of_def
  create_tree.simps children_loop.simps(2)

lemmas final_defs = bump_def count_nodes_and_gates_def add_meta_data_def in_degree_of_def
  out_degree_of_def calculate_in_and_out_degrees_def calculate_node_features_def

lemmas file_defs = read_data_config_def write_data_config_def default_config_def reset_def
  save_model_def

lemmas run_defs = generate_subgraph_def FaultTreeDatasetGenerator_def world_def

lemma children_loop_numeral:
  "children_loop cfg p d (numeral v) s = children_loop cfg p d (Suc (pred_numeral v)) s"
  by (simp add: numeral_eq_Suc)

lemma children_loop_1: "children_loop cfg p d 1 s = children_loop cfg p d (Suc 0) s"
  by simp

lemma create_tree_unfold:
  "\<not> max_depth cfg \<le> d \<Longrightarrow> randint (min_children cfg) (max_num_children cfg) s = (r, s1) \<Longrightarrow>
   create_tree cfg p d s =
     (case r of Inl e \<Rightarrow> (Inl e, s1) | Inr n \<Rightarrow> children_loop cfg p d (nat n) s1)"
  by (simp add: create_tree.simps split: sum.splits)

lemma children_loop_unfold:
  "is_intermediate_of cfg d s = (Inr b, s1) \<Longrightarrow>
   create_node (if b then 1 else 2) (Some (d + 1)) (- 1) s1 = (c, s2) \<Longrightarrow>
   children_loop cfg p d (Suc k) s =
     (if b
      then (case create_tree cfg c (d + 1) (create_edge c p s2) of
              (Inl e, s4) \<Rightarrow> (Inl e, s4)
            | (Inr u, s4) \<Rightarrow> children_loop cfg p d k s4)
      else children_loop cfg p d k (create_edge c p s2))"
  by (simp add: children_loop.simps(2))

lemma graphs_loop_numeral:
  "graphs_loop (numeral v) cfg s = graphs_loop (Suc (pred_numeral v)) cfg s"
  by (simp add: numeral_eq_Suc)

lemma graphs_loop_1: "graphs_loop 1 cfg s = graphs_loop (Suc 0) cfg s"
  by simp

lemmas loop_simps = children_loop_numeral graphs_loop_numeral graphs_loop_1 children_loop_1

section \<open>Gate types of the generated nodes\<close>

text \<open>
  C1. The claim: the gate type of a node is NONE (0) if and only if the node is a LEAF,
  and every other node has gate type AND (1) or OR (2). On the code this fails:
  \<^verbatim>\<open>create_tree\<close> passes \<^verbatim>\<open>current_depth + 1\<close> in the position of \<^verbatim>\<open>gate_type\<close>, so
  \<^verbatim>\<open>create_node\<close> never chooses the gate type of a child. With
  \<^verbatim>\<open>max_num_children=2, min_children=2, max_depth=1\<close>, no counters file and an exhausted
  random tape, the exported graph has the two leaves 2 and 3 with gate type 1.
\<close>

theorem C1_leaf_gate_type_is_depth:
  "map (\<lambda>(i, g). map (\<lambda>(n, a). (n, node_type a, gate_type a)) (nodes g))
     (model_files (snd (FaultTreeDatasetGenerator cfg_2_2_1 (world [] None ''2024-10-08'')))) =
   [[(1, Some 0, Some 1), (2, Some 2, Some 1), (3, Some 2, Some 1)]]"
  by (simp add: cfg_2_2_1_def run_defs file_defs final_defs rand_defs graph_defs build_defs
        loop_simps Let_def)

subsection \<open>The random source changes the tape only\<close>

lemma draw_state: "\<exists>t. snd (draw s) = s\<lparr>tape := t\<rparr>"
  by (cases "tape s") (auto simp: draw_def intro: exI[of _ "tape s"])

lemma randint_state: "\<exists>t. snd (randint a b s) = s\<lparr>tape := t\<rparr>"
proof (cases "b < a")
  case True
  then show ?thesis by (auto simp: randint_def intro: exI[of _ "tape s"])
next
  case False
  with draw_state[of s] show ?thesis by (auto simp: randint_def split_beta)
qed

lemma random_random_state: "\<exists>t. snd (random_random s) = s\<lparr>tape := t\<rparr>"
  using draw_state[of s] by (auto simp: random_random_def split_beta)

lemma random_random_range: "0 \<le> fst (random_random s) \<and> fst (random_random s) < 1"
  by (simp add: random_random_def split_beta)

lemma is_intermediate_of_state: "\<exists>t. snd (is_intermediate_of cfg d s) = s\<lparr>tape := t\<rparr>"
proof (cases "d = max_depth cfg - 1")
  case True
  then show ?thesis by (auto simp: is_intermediate_of_def intro: exI[of _ "tape s"])
next
  case False
  with random_random_state[of s] show ?thesis
    by (auto simp: is_intermediate_of_def split_beta truediv_def)
qed

lemma random_choice_state: "\<exists>t. snd (random_choice_1_2 s) = s\<lparr>tape := t\<rparr>"
  using draw_state[of s] by (auto simp: random_choice_1_2_def split_beta)

lemma random_choice_range: "fst (random_choice_1_2 s) = 1 \<or> fst (random_choice_1_2 s) = 2"
proof -
  have "fst (draw s) mod 2 = 0 \<or> fst (draw s) mod 2 = 1" by arith
  then show ?thesis by (auto simp: random_choice_1_2_def split_beta)
qed

lemma biased_state: "\<exists>t. snd (biased_random_low_number s) = s\<lparr>tape := t\<rparr>"
  using random_random_state[of s]
  by (auto simp: biased_random_low_number_def random_uniform_def split_beta)

lemma biased_value:
  "fst (biased_random_low_number s) = fst (random_random s) ^ 10"
  by (simp add: biased_random_low_number_def random_uniform_def split_beta)

lemma biased_range:
  "0 \<le> fst (biased_random_low_number s) \<and> fst (biased_random_low_number s) < 1"
proof -
  let ?u = "fst (random_random s)"
  from random_random_range[of s] have u: "0 \<le> ?u" "?u < 1" by auto
  then have "?u ^ 10 < 1" by (simp add: power_less_one_iff)
  with u show ?thesis by (simp add: biased_value)
qed

subsection \<open>Creating a node and an edge\<close>

lemma create_node_fresh:
  assumes "\<not> has_node (graph s) (node_counter s + 1)"
  shows "\<exists>t a. create_node ty g pr s =
           (node_counter s + 1,
            s\<lparr>tape := t,
              graph := (graph s)\<lparr>nodes := nodes (graph s) @ [(node_counter s + 1, a)]\<rparr>,
              node_counter := node_counter s + 1\<rparr>) \<and>
         node_type a = Some ty \<and>
         (ty = 2 \<longrightarrow> (\<exists>x. node_probability a = Some x \<and> 0 \<le> x \<and> x < 1)) \<and>
         (ty \<noteq> 2 \<longrightarrow> node_probability a = Some pr) \<and>
         (\<forall>gt. g = Some gt \<longrightarrow> gate_type a = Some gt) \<and>
         (g = None \<longrightarrow> ty = 2 \<longrightarrow> gate_type a = Some 0) \<and>
         (g = None \<longrightarrow> ty \<noteq> 2 \<longrightarrow> gate_type a = Some 1 \<or> gate_type a = Some 2)"
proof -
  define r1 where "r1 = (case g of None \<Rightarrow> (if ty = 2 then (0, s) else random_choice_1_2 s)
                                | Some gt \<Rightarrow> (gt, s))"
  have "\<exists>t. snd r1 = s\<lparr>tape := t\<rparr>"
    using random_choice_state[of s]
    by (auto simp: r1_def intro: exI[of _ "tape s"] split: option.splits)
  then obtain t1 where s1: "snd r1 = s\<lparr>tape := t1\<rparr>" by blast
  define r2 where "r2 = (if ty = 2 then biased_random_low_number (snd r1) else (pr, snd r1))"
  have "\<exists>t. snd r2 = s\<lparr>tape := t\<rparr>"
    using biased_state[of "snd r1"] s1
    by (auto simp: r2_def intro: exI[of _ "t1"])
  then obtain t2 where s2: "snd r2 = s\<lparr>tape := t2\<rparr>" by blast
  have p2: "(ty = 2 \<longrightarrow> 0 \<le> fst r2 \<and> fst r2 < 1) \<and> (ty \<noteq> 2 \<longrightarrow> fst r2 = pr)"
    using biased_range[of "snd r1"] by (simp add: r2_def)
  have g1: "(\<forall>gt. g = Some gt \<longrightarrow> fst r1 = gt) \<and> (g = None \<longrightarrow> ty = 2 \<longrightarrow> fst r1 = 0) \<and>
            (g = None \<longrightarrow> ty \<noteq> 2 \<longrightarrow> fst r1 = 1 \<or> fst r1 = 2)"
    using random_choice_range[of s] by (auto simp: r1_def)
  let ?a = "empty_node_attrs\<lparr>node_type := Some ty, gate_type := Some (fst r1),
              node_probability := Some (fst r2)\<rparr>"
  have "create_node ty g pr s =
          (node_counter s + 1,
            s\<lparr>tape := t2,
              graph := (graph s)\<lparr>nodes := nodes (graph s) @ [(node_counter s + 1, ?a)]\<rparr>,
              node_counter := node_counter s + 1\<rparr>)"
    using assms s2
    by (simp add: create_node_def r1_def[symmetric] r2_def[symmetric] split_beta Let_def
          add_node_def)
  moreover have "node_type ?a = Some ty" by simp
  ultimately show ?thesis using p2 g1
    by (intro exI[of _ t2] exI[of _ ?a]) auto
qed

lemma create_edge_fresh:
  assumes "has_node (graph s) c" "has_node (graph s) p" "(c, p) \<notin> set (edges (graph s))"
  shows "create_edge c p s = s\<lparr>graph := (graph s)\<lparr>edges := edges (graph s) @ [(c, p)]\<rparr>\<rparr>"
  using assms by (simp add: create_edge_def add_edge_def ensure_node_def Let_def)

subsection \<open>The invariants of the construction\<close>

lemma struct_inv_tape [simp]: "struct_inv N (s\<lparr>tape := t\<rparr>) = struct_inv N s"
  by (simp add: struct_inv_def)

lemma depth_inv_tape [simp]: "depth_inv cfg N (s\<lparr>tape := t\<rparr>) = depth_inv cfg N s"
  by (simp add: depth_inv_def)

lemma grows_refl: "grows s s"
  by (simp add: grows_def)

lemma grows_tape: "grows s (s\<lparr>tape := t\<rparr>)"
  by (simp add: grows_def)

lemma grows_trans:
  assumes "grows s s1" "grows s1 s2"
  shows "grows s s2"
  unfolding grows_def
proof (intro conjI allI impI)
  show "node_counter s \<le> node_counter s2" using assms by (simp add: grows_def)
  show "prefix (nodes (graph s)) (nodes (graph s2))"
    using assms prefix_order.trans unfolding grows_def by blast
  show "prefix (edges (graph s)) (edges (graph s2))"
    using assms prefix_order.trans unfolding grows_def by blast
  fix v k assume "v \<le> node_counter s" "node_depth (graph s) v k"
  with assms(1) have "v \<le> node_counter s1" "node_depth (graph s1) v k"
    by (auto simp: grows_def)
  with assms(2) show "node_depth (graph s2) v k" by (simp add: grows_def)
qed (use assms in \<open>simp_all add: grows_def\<close>)

lemma node_depth_tape [simp]: "node_depth (graph (s\<lparr>tape := t\<rparr>)) = node_depth (graph s)"
  by simp

lemma node_depth_add_edge:
  assumes "node_depth g v k"
    and "edges g' = edges g @ [(c, p)]"
    and "c \<notin> snd ` set (edges g)"
    and "v \<noteq> c"
  shows "node_depth g' v k"
  using assms(1,4)
proof (induction rule: node_depth.induct)
  case (root v)
  then have "map_of (edges g') v = None" using assms(2) by (simp add: map_add_def)
  then show ?case by (rule node_depth.root)
next
  case (child v q k)
  from child.hyps(1) have "(v, q) \<in> set (edges g)" by (rule map_of_SomeD)
  then have "q \<noteq> c" using assms(3) by force
  with child.IH have q: "node_depth g' q k" by simp
  have "map_of (edges g') v = Some q"
    using child.hyps(1) assms(2) by (simp add: map_add_def)
  then show ?case using q by (rule node_depth.child)
qed

lemma node_depth_new_child:
  assumes "node_depth g p k"
    and "edges g' = edges g @ [(c, p)]"
    and "c \<notin> snd ` set (edges g)"
    and "c \<notin> fst ` set (edges g)"
    and "p \<noteq> c"
  shows "node_depth g' c (Suc k)"
proof -
  have "map_of (edges g) c = None" using assms(4) by (simp add: map_of_eq_None_iff)
  then have "map_of (edges g') c = Some p" using assms(2) by (simp add: map_add_def)
  then show ?thesis using node_depth_add_edge[OF assms(1,2,3,5)] by (rule node_depth.child)
qed

lemma node_depth_unique:
  "node_depth g v k \<Longrightarrow> node_depth g v k' \<Longrightarrow> k = k'"
proof (induction arbitrary: k' rule: node_depth.induct)
  case (root v)
  from root.prems root.hyps show ?case by (cases rule: node_depth.cases) auto
next
  case (child v p k)
  from child.prems child.hyps(1) obtain j where "k' = Suc j" "node_depth g p j"
    by (cases rule: node_depth.cases) auto
  with child.IH show ?case by simp
qed

lemma upto_snoc: "i \<le> j + 1 \<Longrightarrow> [i..j] @ [j + 1] = [i..j + 1]"
  by (simp add: upto_rec2)

lemma child_step:
  assumes inv: "struct_inv N s1"
    and p: "N + 1 \<le> p" "p \<le> node_counter s1"
    and ty: "ty = 1 \<or> ty = 2"
    and cn: "create_node ty (Some g) (- 1) s1 = (c, s2)"
  shows "\<exists>t a. create_edge c p s2 =
            s1\<lparr>tape := t,
               graph := (graph s1)\<lparr>nodes := nodes (graph s1) @ [(c, a)],
                                   edges := edges (graph s1) @ [(c, p)]\<rparr>,
               node_counter := c\<rparr> \<and>
          c = node_counter s1 + 1 \<and> node_ok N c a \<and> gate_type a = Some g \<and>
          node_type a = Some ty"
proof -
  let ?n = "node_counter s1"
  from inv have ids: "map fst (nodes (graph s1)) = [N + 1..?n]"
    and src: "map fst (edges (graph s1)) = [N + 2..?n]"
    and le: "N + 1 \<le> ?n"
    by (simp_all add: struct_inv_def)
  have fresh: "\<not> has_node (graph s1) (?n + 1)" by (simp add: has_node_def ids)
  from create_node_fresh[OF fresh, of ty "Some g" "- 1"] cn
  obtain t a where c: "c = ?n + 1"
    and s2: "s2 = s1\<lparr>tape := t,
              graph := (graph s1)\<lparr>nodes := nodes (graph s1) @ [(?n + 1, a)]\<rparr>,
              node_counter := ?n + 1\<rparr>"
    and a: "node_type a = Some ty"
      "ty = 2 \<longrightarrow> (\<exists>x. node_probability a = Some x \<and> 0 \<le> x \<and> x < 1)"
      "ty \<noteq> 2 \<longrightarrow> node_probability a = Some (- 1)"
      "gate_type a = Some g"
    by auto
  have hc: "has_node (graph s2) c" by (simp add: has_node_def s2 c)
  have hp: "has_node (graph s2) p" using p by (simp add: has_node_def s2 ids)
  have "c \<notin> set (map fst (edges (graph s1)))" by (simp add: src c)
  then have "(c, p) \<notin> set (edges (graph s1))" by force
  then have ne: "(c, p) \<notin> set (edges (graph s2))" by (simp add: s2)
  have ok: "node_ok N c a" using a ty le by (auto simp: node_ok_def c)
  from create_edge_fresh[OF hc hp ne] have
    "create_edge c p s2 =
       s1\<lparr>tape := t,
          graph := (graph s1)\<lparr>nodes := nodes (graph s1) @ [(c, a)],
                              edges := edges (graph s1) @ [(c, p)]\<rparr>,
          node_counter := c\<rparr>"
    by (simp add: s2 c)
  with c ok a show ?thesis by blast
qed

lemma child_state_inv:
  assumes inv: "struct_inv N s1"
    and p: "N + 1 \<le> p" "p \<le> node_counter s1"
    and c: "c = node_counter s1 + 1"
    and ok: "node_ok N c a"
    and s3: "s3 = s1\<lparr>tape := t,
               graph := (graph s1)\<lparr>nodes := nodes (graph s1) @ [(c, a)],
                                   edges := edges (graph s1) @ [(c, p)]\<rparr>,
               node_counter := c\<rparr>"
  shows "struct_inv N s3"
proof -
  let ?n = "node_counter s1"
  from inv have ids: "map fst (nodes (graph s1)) = [N + 1..?n]"
    and src: "map fst (edges (graph s1)) = [N + 2..?n]"
    and le: "N + 1 \<le> ?n"
    and ord: "\<forall>(u, v) \<in> set (edges (graph s1)). N + 1 \<le> v \<and> v < u"
    and oks: "\<forall>(n, a) \<in> set (nodes (graph s1)). node_ok N n a"
    by (simp_all add: struct_inv_def)
  have 1: "map fst (nodes (graph s3)) = [N + 1..node_counter s3]"
    using le by (simp add: s3 ids c upto_snoc)
  have 2: "map fst (edges (graph s3)) = [N + 2..node_counter s3]"
    using le by (simp add: s3 src c upto_snoc)
  have 3: "N + 1 \<le> node_counter s3" using le by (simp add: s3 c)
  have 4: "\<forall>(u, v) \<in> set (edges (graph s3)). N + 1 \<le> v \<and> v < u"
    using ord p by (auto simp: s3 c)
  have 5: "\<forall>(n, a) \<in> set (nodes (graph s3)). node_ok N n a"
    using oks ok by (auto simp: s3)
  from 1 2 3 4 5 show ?thesis by (simp add: struct_inv_def)
qed

lemma child_state_depth:
  assumes inv: "struct_inv N s1"
    and p: "N + 1 \<le> p" "p \<le> node_counter s1"
    and c: "c = node_counter s1 + 1"
    and s3: "s3 = s1\<lparr>tape := t,
               graph := (graph s1)\<lparr>nodes := nodes (graph s1) @ [(c, a)],
                                   edges := edges (graph s1) @ [(c, p)]\<rparr>,
               node_counter := c\<rparr>"
  shows "grows s1 s3"
    and "node_depth (graph s1) p k \<Longrightarrow> node_depth (graph s3) c (Suc k)"
    and "depth_inv cfg N s1 \<Longrightarrow> node_depth (graph s1) p k \<Longrightarrow> int (Suc k) \<le> max_depth cfg \<Longrightarrow>
         depth_inv cfg N s3"
proof -
  let ?n = "node_counter s1"
  from inv have src: "map fst (edges (graph s1)) = [N + 2..?n]"
    and le: "N + 1 \<le> ?n"
    and ord: "\<forall>(u, v) \<in> set (edges (graph s1)). N + 1 \<le> v \<and> v < u"
    by (simp_all add: struct_inv_def)
  have e3: "edges (graph s3) = edges (graph s1) @ [(c, p)]" by (simp add: s3)
  have "fst ` set (edges (graph s1)) = set [N + 2..?n]"
    using src by (metis set_map)
  then have nsrc: "c \<notin> fst ` set (edges (graph s1))" by (simp add: c)
  have tgt: "\<And>v. v \<in> snd ` set (edges (graph s1)) \<Longrightarrow> v < c"
  proof -
    fix v assume "v \<in> snd ` set (edges (graph s1))"
    then obtain u where uv: "(u, v) \<in> set (edges (graph s1))" by force
    then have "u \<in> fst ` set (edges (graph s1))" by force
    then have "u \<le> ?n" using \<open>fst ` set (edges (graph s1)) = set [N + 2..?n]\<close> by simp
    moreover from ord uv have "v < u" by auto
    ultimately show "v < c" by (simp add: c)
  qed
  then have ntgt: "c \<notin> snd ` set (edges (graph s1))" by blast
  have keep: "\<And>v k. v \<le> ?n \<Longrightarrow> node_depth (graph s1) v k \<Longrightarrow> node_depth (graph s3) v k"
    using node_depth_add_edge[OF _ e3 ntgt] c by force
  show "grows s1 s3" using keep by (simp add: grows_def s3 c)
  have pc: "p \<noteq> c" using p c by simp
  show new: "node_depth (graph s1) p k \<Longrightarrow> node_depth (graph s3) c (Suc k)" for k
    using node_depth_new_child[OF _ e3 ntgt nsrc pc] by blast
  show "depth_inv cfg N s3"
    if d: "depth_inv cfg N s1" and pk: "node_depth (graph s1) p k"
      and b: "int (Suc k) \<le> max_depth cfg"
    unfolding depth_inv_def
  proof
    fix v assume "v \<in> {N + 1..node_counter s3}"
    then have v: "N + 1 \<le> v" "v \<le> ?n + 1" by (simp_all add: s3 c)
    show "\<exists>j. node_depth (graph s3) v j \<and> int j \<le> max_depth cfg"
    proof (cases "v = c")
      case True
      with new[OF pk] b show ?thesis by blast
    next
      case False
      with v c have "v \<in> {N + 1..?n}" by simp
      with d obtain j where "node_depth (graph s1) v j" "int j \<le> max_depth cfg"
        unfolding depth_inv_def by blast
      with keep[of v j] v False c show ?thesis by auto
    qed
  qed
qed

lemma children_loop_unfold_error:
  "is_intermediate_of cfg d s = (Inl e, s1) \<Longrightarrow> children_loop cfg p d (Suc k) s = (Inl e, s1)"
  by (simp add: children_loop.simps(2))

lemma tree_pre_grows:
  assumes "tree_pre cfg N p d s" "tree_post cfg N s s'"
  shows "tree_pre cfg N p d s'"
  using assms unfolding tree_pre_def tree_post_def grows_def by auto

lemma tree_post_trans:
  "tree_post cfg N s s1 \<Longrightarrow> tree_post cfg N s1 s2 \<Longrightarrow> tree_post cfg N s s2"
  unfolding tree_post_def using grows_trans by blast

lemma tree_post_tape:
  "tree_pre cfg N p d s \<Longrightarrow> tree_post cfg N s (s\<lparr>tape := t\<rparr>)"
  by (simp add: tree_pre_def tree_post_def grows_tape)

lemma tree_post_child:
  assumes pre: "tree_pre cfg N p d s1" and d: "d < max_depth cfg"
    and ty: "ty = 1 \<or> ty = 2"
    and cn: "create_node ty (Some g) (- 1) s1 = (c, s2)"
  shows "tree_post cfg N s1 (create_edge c p s2)"
    and "tree_pre cfg N c (d + 1) (create_edge c p s2)"
proof -
  from pre have inv: "struct_inv N s1" and dinv: "depth_inv cfg N s1"
    and p: "N + 1 \<le> p" "p \<le> node_counter s1" and d0: "0 \<le> d"
    and pd: "node_depth (graph s1) p (nat d)"
    by (simp_all add: tree_pre_def)
  from child_step[OF inv p ty cn] obtain t a where
    s3: "create_edge c p s2 =
            s1\<lparr>tape := t,
               graph := (graph s1)\<lparr>nodes := nodes (graph s1) @ [(c, a)],
                                   edges := edges (graph s1) @ [(c, p)]\<rparr>,
               node_counter := c\<rparr>"
    and c: "c = node_counter s1 + 1" and ok: "node_ok N c a"
    by blast
  have b: "int (Suc (nat d)) \<le> max_depth cfg" using d d0 by simp
  have i3: "struct_inv N (create_edge c p s2)"
    by (rule child_state_inv[OF inv p c ok s3])
  have g3: "grows s1 (create_edge c p s2)"
    by (rule child_state_depth(1)[OF inv p c s3])
  have n3: "node_depth (graph (create_edge c p s2)) c (Suc (nat d))"
    by (rule child_state_depth(2)[OF inv p c s3 pd])
  have d3: "depth_inv cfg N (create_edge c p s2)"
    by (rule child_state_depth(3)[OF inv p c s3 dinv pd b])
  show "tree_post cfg N s1 (create_edge c p s2)"
    using i3 g3 d3 by (simp add: tree_post_def)
  have "Suc (nat d) = nat (d + 1)" using d0 by simp
  with n3 have "node_depth (graph (create_edge c p s2)) c (nat (d + 1))" by simp
  moreover have "node_counter (create_edge c p s2) = c" by (simp add: s3)
  ultimately show "tree_pre cfg N c (d + 1) (create_edge c p s2)"
    using i3 d3 c p d d0 by (simp add: tree_pre_def)
qed

lemma create_tree_inv_aux:
  "tree_pre cfg N p d s \<longrightarrow> tree_post cfg N s (snd (create_tree cfg p d s))"
  "tree_pre cfg N p d s \<and> d < max_depth cfg \<longrightarrow>
     tree_post cfg N s (snd (children_loop cfg p d k s))"
proof (induction cfg p d s and cfg p d k s rule: create_tree_children_loop.induct)
  case (1 cfg p d s)
  show ?case
  proof
    assume pre: "tree_pre cfg N p d s"
    show "tree_post cfg N s (snd (create_tree cfg p d s))"
    proof (cases "max_depth cfg \<le> d")
      case True
      with tree_post_tape[OF pre, of "tape s"] show ?thesis
        by (simp add: create_tree.simps)
    next
      case False
      obtain r s1 where rs: "randint (min_children cfg) (max_num_children cfg) s = (r, s1)"
        by (cases "randint (min_children cfg) (max_num_children cfg) s")
      from randint_state[of "min_children cfg" "max_num_children cfg" s] rs
      obtain t where s1: "s1 = s\<lparr>tape := t\<rparr>" by auto
      have post1: "tree_post cfg N s s1" unfolding s1 by (rule tree_post_tape[OF pre])
      show ?thesis
      proof (cases r)
        case (Inl e)
        with post1 show ?thesis by (simp add: create_tree_unfold[OF False rs])
      next
        case (Inr n)
        have "tree_pre cfg N p d s1" by (rule tree_pre_grows[OF pre post1])
        with "1.IH"[OF False rs[symmetric] Inr] False
        have "tree_post cfg N s1 (snd (children_loop cfg p d (nat n) s1))" by simp
        with post1 Inr show ?thesis
          by (simp add: create_tree_unfold[OF False rs] tree_post_trans)
      qed
    qed
  qed
next
  case (2 cfg p d s)
  show ?case using tree_post_tape[of cfg N p d s "tape s"] by simp
next
  case (3 cfg p d k s)
  show ?case
  proof
    assume a: "tree_pre cfg N p d s \<and> d < max_depth cfg"
    then have pre: "tree_pre cfg N p d s" and d: "d < max_depth cfg" by simp_all
    obtain x s1 where xs: "is_intermediate_of cfg d s = (x, s1)"
      by (cases "is_intermediate_of cfg d s")
    from is_intermediate_of_state[of cfg d s] xs
    obtain t where s1: "s1 = s\<lparr>tape := t\<rparr>" by auto
    have post1: "tree_post cfg N s s1" unfolding s1 by (rule tree_post_tape[OF pre])
    have pre1: "tree_pre cfg N p d s1" by (rule tree_pre_grows[OF pre post1])
    show "tree_post cfg N s (snd (children_loop cfg p d (Suc k) s))"
    proof (cases x)
      case (Inl e)
      with xs post1 show ?thesis by (simp add: children_loop_unfold_error)
    next
      case (Inr b)
      with xs have bs: "is_intermediate_of cfg d s = (Inr b, s1)" by simp
      obtain c s2 where cs: "create_node (if b then 1 else 2) (Some (d + 1)) (- 1) s1 = (c, s2)"
        by (cases "create_node (if b then 1 else 2) (Some (d + 1)) (- 1) s1")
      have ty: "(if b then 1 else 2) = (1::int) \<or> (if b then 1 else 2) = (2::int)" by simp
      note unf = children_loop_unfold[OF bs cs, of p k]
      let ?s3 = "create_edge c p s2"
      have post3: "tree_post cfg N s1 ?s3" by (rule tree_post_child(1)[OF pre1 d ty cs])
      have prec: "tree_pre cfg N c (d + 1) ?s3" by (rule tree_post_child(2)[OF pre1 d ty cs])
      have pre3: "tree_pre cfg N p d ?s3" by (rule tree_pre_grows[OF pre1 post3])
      have post03: "tree_post cfg N s ?s3" by (rule tree_post_trans[OF post1 post3])
      show ?thesis
      proof (cases b)
        case True
        then have t1: "(if b then 1 else 2) = (1::int)" by simp
        obtain r s4 where rs: "create_tree cfg c (d + 1) ?s3 = (r, s4)"
          by (cases "create_tree cfg c (d + 1) ?s3")
        from "3.IH"(1)[OF bs[symmetric] refl refl refl cs[symmetric] refl t1] prec rs
        have post4: "tree_post cfg N ?s3 s4" by simp
        have post04: "tree_post cfg N s s4" by (rule tree_post_trans[OF post03 post4])
        show ?thesis
        proof (cases r)
          case (Inl e)
          with post04 rs True show ?thesis by (simp add: unf)
        next
          case (Inr u)
          have pre4: "tree_pre cfg N p d s4" by (rule tree_pre_grows[OF pre3 post4])
          from "3.IH"(2)[OF bs[symmetric] refl refl refl cs[symmetric] refl t1 rs[symmetric] Inr]
            pre4 d
          have "tree_post cfg N s4 (snd (children_loop cfg p d k s4))" by simp
          with post04 have "tree_post cfg N s (snd (children_loop cfg p d k s4))"
            by (rule tree_post_trans)
          with Inr rs True show ?thesis by (simp add: unf)
        qed
      next
        case False
        then have t2: "(if b then 1 else 2) \<noteq> (1::int)" by simp
        from "3.IH"(3)[OF bs[symmetric] refl refl refl cs[symmetric] refl t2] pre3 d
        have "tree_post cfg N ?s3 (snd (children_loop cfg p d k ?s3))" by simp
        with post03 have "tree_post cfg N s (snd (children_loop cfg p d k ?s3))"
          by (rule tree_post_trans)
        with False show ?thesis by (simp add: unf)
      qed
    qed
  qed
qed

subsection \<open>What \<^verbatim>\<open>create_tree\<close> returns\<close>

lemma randint_result:
  "fst (randint a b s) = (if b < a then Inl ValueError
                           else Inr (a + int (fst (draw s) mod nat (b - a + 1))))"
  by (simp add: randint_def split_beta Let_def)

lemma is_intermediate_of_result:
  "max_depth cfg \<noteq> 0 \<Longrightarrow> \<exists>b. fst (is_intermediate_of cfg d s) = Inr b"
  by (auto simp: is_intermediate_of_def truediv_def split_beta Let_def)

lemma create_tree_result_aux:
  "max_depth cfg \<noteq> 0 \<longrightarrow> res_ok cfg (fst (create_tree cfg p d s))"
  "max_depth cfg \<noteq> 0 \<longrightarrow> res_ok cfg (fst (children_loop cfg p d k s))"
proof (induction cfg p d s and cfg p d k s rule: create_tree_children_loop.induct)
  case (1 cfg p d s)
  show ?case
  proof (cases "max_depth cfg \<le> d")
    case True
    then show ?thesis by (simp add: create_tree.simps res_ok_def)
  next
    case False
    obtain r s1 where rs: "randint (min_children cfg) (max_num_children cfg) s = (r, s1)"
      by (cases "randint (min_children cfg) (max_num_children cfg) s")
    show ?thesis
    proof (cases r)
      case (Inl e)
      with rs randint_result[of "min_children cfg" "max_num_children cfg" s]
      have "e = ValueError \<and> max_num_children cfg < min_children cfg"
        by (auto split: if_splits)
      with Inl show ?thesis by (simp add: create_tree_unfold[OF False rs] res_ok_def)
    next
      case (Inr n)
      from "1.IH"[OF False rs[symmetric] Inr] Inr show ?thesis
        by (simp add: create_tree_unfold[OF False rs])
    qed
  qed
next
  case (2 cfg p d s)
  show ?case by (simp add: res_ok_def)
next
  case (3 cfg p d k s)
  show ?case
  proof
    assume md: "max_depth cfg \<noteq> 0"
    from is_intermediate_of_result[OF md, of d s]
    obtain b s1 where bs: "is_intermediate_of cfg d s = (Inr b, s1)"
      by (cases "is_intermediate_of cfg d s") auto
    obtain c s2 where cs: "create_node (if b then 1 else 2) (Some (d + 1)) (- 1) s1 = (c, s2)"
      by (cases "create_node (if b then 1 else 2) (Some (d + 1)) (- 1) s1")
    note unf = children_loop_unfold[OF bs cs, of p k]
    show "res_ok cfg (fst (children_loop cfg p d (Suc k) s))"
    proof (cases b)
      case True
      then have t1: "(if b then 1 else 2) = (1::int)" by simp
      obtain r s4 where rs: "create_tree cfg c (d + 1) (create_edge c p s2) = (r, s4)"
        by (cases "create_tree cfg c (d + 1) (create_edge c p s2)")
      from "3.IH"(1)[OF bs[symmetric] refl refl refl cs[symmetric] refl t1] md rs
      have ok1: "res_ok cfg r" by simp
      show ?thesis
      proof (cases r)
        case (Inl e)
        with ok1 rs True show ?thesis by (simp add: unf)
      next
        case (Inr u)
        from "3.IH"(2)[OF bs[symmetric] refl refl refl cs[symmetric] refl t1 rs[symmetric] Inr] md
        have "res_ok cfg (fst (children_loop cfg p d k s4))" by simp
        with Inr rs True show ?thesis by (simp add: unf)
      qed
    next
      case False
      then have t2: "(if b then 1 else 2) \<noteq> (1::int)" by simp
      from "3.IH"(3)[OF bs[symmetric] refl refl refl cs[symmetric] refl t2] md
      have "res_ok cfg (fst (children_loop cfg p d k (create_edge c p s2)))" by simp
      with False show ?thesis by (simp add: unf)
    qed
  qed
qed

lemma create_tree_result:
  assumes "0 \<le> d"
  shows "res_ok cfg (fst (create_tree cfg p d s))"
proof (cases "max_depth cfg = 0")
  case True
  with assms show ?thesis by (simp add: create_tree.simps res_ok_def)
next
  case False
  with create_tree_result_aux(1)[of cfg p d s] show ?thesis by simp
qed

lemma create_tree_succeeds:
  assumes "0 \<le> d" "min_children cfg \<le> max_num_children cfg"
  shows "fst (create_tree cfg p d s) = Inr ()"
  using create_tree_result[OF assms(1), of cfg p s] assms(2) by (simp add: res_ok_def)

subsection \<open>One graph\<close>

lemma node_depth_cong:
  assumes "edges g' = edges g"
  shows "node_depth g' v k = node_depth g v k"
proof
  show "node_depth g' v k \<Longrightarrow> node_depth g v k"
    by (induction rule: node_depth.induct) (auto simp: assms intro: node_depth.intros)
  show "node_depth g v k \<Longrightarrow> node_depth g' v k"
    by (induction rule: node_depth.induct) (auto simp: assms[symmetric] intro: node_depth.intros)
qed

lemma top_node:
  assumes "nodes (graph s) = []" "edges (graph s) = []"
  shows "\<exists>t a. create_node 0 None (- 1) s =
           (node_counter s + 1,
            s\<lparr>tape := t, graph := (graph s)\<lparr>nodes := [(node_counter s + 1, a)]\<rparr>,
              node_counter := node_counter s + 1\<rparr>) \<and>
         node_type a = Some 0 \<and> node_probability a = Some (- 1) \<and>
         (gate_type a = Some 1 \<or> gate_type a = Some 2)"
proof -
  have "\<not> has_node (graph s) (node_counter s + 1)" by (simp add: has_node_def assms)
  from create_node_fresh[OF this, of 0 None "- 1"] assms show ?thesis by auto
qed

lemma top_state_inv:
  assumes "edges (graph s) = []"
    and "s1 = s\<lparr>tape := t, graph := (graph s)\<lparr>nodes := [(node_counter s + 1, a)]\<rparr>,
              node_counter := node_counter s + 1\<rparr>"
    and "node_type a = Some 0" "node_probability a = Some (- 1)"
  shows "struct_inv (node_counter s) s1"
    and "node_depth (graph s1) v 0"
    and "0 \<le> max_depth cfg \<Longrightarrow> tree_pre cfg (node_counter s) (node_counter s + 1) 0 s1"
proof -
  show 1: "struct_inv (node_counter s) s1"
    using assms by (simp add: struct_inv_def node_ok_def)
  show 2: "node_depth (graph s1) v 0" for v
    by (rule node_depth.root) (simp add: assms)
  have "depth_inv cfg (node_counter s) s1" if "0 \<le> max_depth cfg"
    unfolding depth_inv_def using 2 that by (intro ballI exI[of _ 0]) simp
  with 1 2[of "node_counter s + 1"]
  show "0 \<le> max_depth cfg \<Longrightarrow> tree_pre cfg (node_counter s) (node_counter s + 1) 0 s1"
    by (simp add: tree_pre_def assms(2))
qed

lemma generate_subgraph_unfold:
  assumes "create_node 0 None (- 1) s = (c, s1)" "create_tree cfg c 0 s1 = (r, s2)"
  shows "generate_subgraph cfg s = (case r of Inl e \<Rightarrow> (Inl e, s2) | Inr u \<Rightarrow> (Inr (), finish s2))"
  using assms by (simp add: generate_subgraph_def finish_def Let_def split: sum.splits)

lemma built_tree:
  assumes e: "nodes (graph s) = []" "edges (graph s) = []"
  shows "\<exists>s2. struct_inv (node_counter s) s2 \<and>
          (0 \<le> max_depth cfg \<longrightarrow> depth_inv cfg (node_counter s) s2) \<and>
          attrs (graph s2) = attrs (graph s) \<and>
          model_counter s2 = model_counter s \<and> data_config s2 = data_config s \<and>
          model_files s2 = model_files s \<and> stdout s2 = stdout s \<and> today s2 = today s \<and>
          res_ok cfg (fst (generate_subgraph cfg s)) \<and>
          snd (generate_subgraph cfg s) =
            (case fst (generate_subgraph cfg s) of Inl e \<Rightarrow> s2 | Inr u \<Rightarrow> finish s2)"
proof -
  let ?N = "node_counter s"
  from top_node[OF e] obtain t a where
    cn: "create_node 0 None (- 1) s =
           (?N + 1, s\<lparr>tape := t, graph := (graph s)\<lparr>nodes := [(?N + 1, a)]\<rparr>,
              node_counter := ?N + 1\<rparr>)"
    and a: "node_type a = Some 0" "node_probability a = Some (- 1)"
    by blast
  define s1 where "s1 = s\<lparr>tape := t, graph := (graph s)\<lparr>nodes := [(?N + 1, a)]\<rparr>,
              node_counter := ?N + 1\<rparr>"
  note top = top_state_inv[OF e(2) s1_def a]
  obtain r s2 where rs: "create_tree cfg (?N + 1) 0 s1 = (r, s2)"
    by (cases "create_tree cfg (?N + 1) 0 s1")
  have env1: "attrs (graph s1) = attrs (graph s)" "model_counter s1 = model_counter s"
    "data_config s1 = data_config s" "model_files s1 = model_files s"
    "stdout s1 = stdout s" "today s1 = today s"
    by (simp_all add: s1_def)
  have post: "struct_inv ?N s2 \<and> (0 \<le> max_depth cfg \<longrightarrow> depth_inv cfg ?N s2) \<and> grows s1 s2"
  proof (cases "0 \<le> max_depth cfg")
    case True
    from create_tree_inv_aux(1)[of cfg ?N "?N + 1" 0 s1] top(3)[OF True] rs
    show ?thesis by (simp add: tree_post_def)
  next
    case False
    then have "create_tree cfg (?N + 1) 0 s1 = (Inr (), s1)" by (simp add: create_tree.simps)
    with rs have "s2 = s1" by simp
    with top(1) False show ?thesis by (simp add: grows_refl)
  qed
  have res: "res_ok cfg r" using create_tree_result[of 0 cfg "?N + 1" s1] rs by simp
  have gs: "generate_subgraph cfg s =
      (case r of Inl e \<Rightarrow> (Inl e, s2) | Inr u \<Rightarrow> (Inr (), finish s2))"
    using generate_subgraph_unfold[OF _ rs] cn by (simp add: s1_def)
  have "res_ok cfg (fst (generate_subgraph cfg s))"
    using res by (cases r) (auto simp: gs res_ok_def)
  moreover have "snd (generate_subgraph cfg s) =
            (case fst (generate_subgraph cfg s) of Inl e \<Rightarrow> s2 | Inr u \<Rightarrow> finish s2)"
    by (simp add: gs split: sum.splits)
  ultimately show ?thesis using post env1 by (intro exI[of _ s2]) (simp add: grows_def)
qed

subsection \<open>Meta data, degrees and export\<close>

lemma finish_graph:
  "edges (graph (finish s)) = edges (graph s)"
  "nodes (graph (finish s)) =
     map (\<lambda>(n, a). (n, a\<lparr>in_degree := Some (in_degree_of (graph s) n),
                           out_degree := Some (out_degree_of (graph s) n)\<rparr>)) (nodes (graph s))"
  "node_counter (finish s) = node_counter s"
  "model_counter (finish s) = model_counter s"
  "stdout (finish s) = stdout s"
  "model_files (finish s) = model_files s @ [(model_counter s + 1, graph (finish s))]"
  "data_config (finish s) =
     Some (''num_models='' @ str_int (model_counter s + 1) @ '';'' @
           ''num_nodes='' @ str_int (node_counter s))"
  by (simp_all add: finish_def save_model_def write_data_config_def calculate_node_features_def
      calculate_in_and_out_degrees_def add_meta_data_def in_degree_of_def out_degree_of_def
      split_beta Let_def)

lemma finish_attrs:
  "num_nodes (attrs (graph (finish s))) = Some (node_counter s)"
  "model_id (attrs (graph (finish s))) = Some (model_counter s + 1)"
  "creation_date (attrs (graph (finish s))) = Some (today s)"
  "num_top_nodes (attrs (graph (finish s))) = Some (fst (fst (count_nodes_and_gates (graph s))))"
  "num_intermediate_nodes (attrs (graph (finish s))) =
     Some (fst (snd (fst (count_nodes_and_gates (graph s)))))"
  "num_leaf_nodes (attrs (graph (finish s))) =
     Some (snd (snd (fst (count_nodes_and_gates (graph s)))))"
  "num_and_gates (attrs (graph (finish s))) =
     Some (fst (snd (snd (count_nodes_and_gates (graph s)))))"
  "num_or_gates (attrs (graph (finish s))) =
     Some (snd (snd (snd (count_nodes_and_gates (graph s)))))"
  by (simp_all add: finish_def save_model_def write_data_config_def calculate_node_features_def
      calculate_in_and_out_degrees_def add_meta_data_def split_beta Let_def)

lemma finish_struct_inv: "struct_inv N s \<Longrightarrow> struct_inv N (finish s)"
  by (auto simp: struct_inv_def finish_graph node_ok_def comp_def split_beta)

lemma finish_depth_inv: "depth_inv cfg N s \<Longrightarrow> depth_inv cfg N (finish s)"
  using node_depth_cong[OF finish_graph(1), of s]
  by (simp add: depth_inv_def finish_graph(3))

lemma bump_triple:
  "bump key (c0, c1, c2) =
     (c0 + (if key = Some 0 then 1 else 0), c1 + (if key = Some 1 then 1 else 0),
      c2 + (if key = Some 2 then 1 else 0))"
  by (cases key) (auto simp: bump_def)

lemma bump_fold:
  "fold (\<lambda>(n, a) (nc, gc). (bump (node_type a) nc, bump (gate_type a) gc)) xs
     ((c0, c1, c2), (g0, g1, g2)) =
   ((c0 + int (length (filter (\<lambda>(n, a). node_type a = Some 0) xs)),
     c1 + int (length (filter (\<lambda>(n, a). node_type a = Some 1) xs)),
     c2 + int (length (filter (\<lambda>(n, a). node_type a = Some 2) xs))),
    (g0 + int (length (filter (\<lambda>(n, a). gate_type a = Some 0) xs)),
     g1 + int (length (filter (\<lambda>(n, a). gate_type a = Some 1) xs)),
     g2 + int (length (filter (\<lambda>(n, a). gate_type a = Some 2) xs))))"
proof (induction xs arbitrary: c0 c1 c2 g0 g1 g2)
  case Nil
  show ?case by simp
next
  case (Cons x xs)
  obtain n a where x: "x = (n, a)" by (cases x)
  show ?case by (simp add: x bump_triple Cons.IH)
qed

lemma count_nodes_and_gates_tally:
  "count_nodes_and_gates g =
     ((tally_node_type 0 g, tally_node_type 1 g, tally_node_type 2 g),
      (tally_gate_type 0 g, tally_gate_type 1 g, tally_gate_type 2 g))"
  using bump_fold[of "nodes g" 0 0 0 0 0 0]
  by (simp add: count_nodes_and_gates_def tally_node_type_def tally_gate_type_def)

lemma finish_tally:
  "tally_node_type t (graph (finish s)) = tally_node_type t (graph s)"
  "tally_gate_type t (graph (finish s)) = tally_gate_type t (graph s)"
  by (simp_all add: tally_node_type_def tally_gate_type_def finish_graph(2) filter_map comp_def
      case_prod_unfold)

lemma finish_meta:
  "num_top_nodes (attrs (graph (finish s))) = Some (tally_node_type 0 (graph (finish s)))"
  "num_intermediate_nodes (attrs (graph (finish s))) = Some (tally_node_type 1 (graph (finish s)))"
  "num_leaf_nodes (attrs (graph (finish s))) = Some (tally_node_type 2 (graph (finish s)))"
  "num_and_gates (attrs (graph (finish s))) = Some (tally_gate_type 1 (graph (finish s)))"
  "num_or_gates (attrs (graph (finish s))) = Some (tally_gate_type 2 (graph (finish s)))"
  "num_nodes (attrs (graph (finish s))) = Some (node_counter (finish s))"
  by (simp_all add: finish_attrs count_nodes_and_gates_tally finish_tally finish_graph(3))

lemma finish_degrees:
  assumes "(n, a) \<in> set (nodes (graph (finish s)))"
  shows "in_degree a = Some (in_degree_of (graph (finish s)) n)"
    and "out_degree a = Some (out_degree_of (graph (finish s)) n)"
proof -
  have e: "in_degree_of (graph (finish s)) = in_degree_of (graph s)"
    "out_degree_of (graph (finish s)) = out_degree_of (graph s)"
    by (simp_all add: in_degree_of_def out_degree_of_def finish_graph(1) fun_eq_iff)
  from assms show "in_degree a = Some (in_degree_of (graph (finish s)) n)"
    and "out_degree a = Some (out_degree_of (graph (finish s)) n)"
    by (auto simp: finish_graph(2) e)
qed

text \<open>What is known of the state after \<^verbatim>\<open>generate_subgraph\<close> on an empty graph.\<close>

lemma generate_subgraph_inv:
  assumes e: "nodes (graph s) = []" "edges (graph s) = []"
  shows "struct_inv (node_counter s) (snd (generate_subgraph cfg s))"
    and "0 \<le> max_depth cfg \<Longrightarrow> depth_inv cfg (node_counter s) (snd (generate_subgraph cfg s))"
    and "res_ok cfg (fst (generate_subgraph cfg s))"
    and "model_counter (snd (generate_subgraph cfg s)) = model_counter s"
    and "stdout (snd (generate_subgraph cfg s)) = stdout s"
    and "today (snd (generate_subgraph cfg s)) = today s"
proof -
  from built_tree[OF e, of cfg] obtain s2 where
    i: "struct_inv (node_counter s) s2"
    and d: "0 \<le> max_depth cfg \<longrightarrow> depth_inv cfg (node_counter s) s2"
    and env: "model_counter s2 = model_counter s" "stdout s2 = stdout s" "today s2 = today s"
    and r: "res_ok cfg (fst (generate_subgraph cfg s))"
    and s': "snd (generate_subgraph cfg s) =
            (case fst (generate_subgraph cfg s) of Inl e \<Rightarrow> s2 | Inr u \<Rightarrow> finish s2)"
    by blast
  show "res_ok cfg (fst (generate_subgraph cfg s))" by (rule r)
  show "struct_inv (node_counter s) (snd (generate_subgraph cfg s))"
    using i finish_struct_inv[OF i] by (simp add: s' split: sum.splits)
  show "depth_inv cfg (node_counter s) (snd (generate_subgraph cfg s))" if "0 \<le> max_depth cfg"
    using d that finish_depth_inv[of cfg "node_counter s" s2] by (simp add: s' split: sum.splits)
  show "model_counter (snd (generate_subgraph cfg s)) = model_counter s"
    using env by (simp add: s' finish_graph split: sum.splits)
  show "stdout (snd (generate_subgraph cfg s)) = stdout s"
    using env by (simp add: s' finish_graph split: sum.splits)
  show "today (snd (generate_subgraph cfg s)) = today s"
    using env by (simp add: s' finish_def save_model_def write_data_config_def
        calculate_node_features_def add_meta_data_def split_beta Let_def split: sum.splits)
qed

lemma generate_subgraph_finished:
  assumes e: "nodes (graph s) = []" "edges (graph s) = []"
    and ok: "fst (generate_subgraph cfg s) = Inr ()"
  shows "\<exists>s2. snd (generate_subgraph cfg s) = finish s2 \<and> model_files s2 = model_files s \<and>
           model_counter s2 = model_counter s \<and> struct_inv (node_counter s) s2"
proof -
  from built_tree[OF e, of cfg] ok show ?thesis by auto
qed

lemma generate_subgraph_failed:
  assumes e: "nodes (graph s) = []" "edges (graph s) = []"
    and ok: "fst (generate_subgraph cfg s) \<noteq> Inr ()"
  shows "model_files (snd (generate_subgraph cfg s)) = model_files s"
    and "data_config (snd (generate_subgraph cfg s)) = data_config s"
proof -
  from built_tree[OF e, of cfg] obtain s2 where
    env: "model_files s2 = model_files s" "data_config s2 = data_config s"
    and s': "snd (generate_subgraph cfg s) =
            (case fst (generate_subgraph cfg s) of Inl e \<Rightarrow> s2 | Inr u \<Rightarrow> finish s2)"
    by blast
  from ok obtain x where "fst (generate_subgraph cfg s) = Inl x"
    by (cases "fst (generate_subgraph cfg s)") auto
  with s' env show "model_files (snd (generate_subgraph cfg s)) = model_files s"
    and "data_config (snd (generate_subgraph cfg s)) = data_config s" by simp_all
qed

section \<open>No division by zero\<close>

text \<open>
  C10. For every call \<^verbatim>\<open>create_tree(parent_id, current_depth)\<close> with
  \<^verbatim>\<open>current_depth >= 0\<close>, whatever \<^verbatim>\<open>max_depth\<close> is, the call does not raise
  ZeroDivisionError; nor does its loop, which runs only when
  \<^verbatim>\<open>current_depth < max_depth\<close>. The division is guarded by
  \<^verbatim>\<open>current_depth < max_depth\<close> and \<^verbatim>\<open>current_depth != max_depth - 1\<close>, which for a
  depth that is not negative give \<^verbatim>\<open>max_depth >= 2\<close>.
\<close>

theorem C10_no_division_by_zero:
  assumes "0 \<le> d"
  shows "fst (create_tree cfg p d s) \<noteq> Inl ZeroDivisionError \<and>
         (d < max_depth cfg \<longrightarrow> fst (children_loop cfg p d k s) \<noteq> Inl ZeroDivisionError) \<and>
         (d < max_depth cfg \<and> d \<noteq> max_depth cfg - 1 \<longrightarrow> 2 \<le> max_depth cfg) \<and>
         (d = max_depth cfg - 1 \<longrightarrow> is_intermediate_of cfg d s = (Inr False, s))"
proof (intro conjI impI)
  from create_tree_result[OF assms, of cfg p s]
  show "fst (create_tree cfg p d s) \<noteq> Inl ZeroDivisionError" by (auto simp: res_ok_def)
  show "fst (children_loop cfg p d k s) \<noteq> Inl ZeroDivisionError" if "d < max_depth cfg"
  proof -
    from that assms have "max_depth cfg \<noteq> 0" by simp
    with create_tree_result_aux(2)[of cfg p d k s] show ?thesis by (auto simp: res_ok_def)
  qed
  show "2 \<le> max_depth cfg" if "d < max_depth cfg \<and> d \<noteq> max_depth cfg - 1"
    using that assms by simp
  show "is_intermediate_of cfg d s = (Inr False, s)" if "d = max_depth cfg - 1"
    using that by (simp add: is_intermediate_of_def)
qed

theorem C10_witness:
  "(0::int) \<le> 0 \<and>
   fst (create_tree cfg_depth_0 1 0 (world [] None [])) = Inr () \<and>
   fst (create_tree cfg_2_2_1 1 0 (world [] None [])) \<noteq> Inl ZeroDivisionError \<and>
   is_intermediate_of cfg_2_2_1 0 (world [] None []) = (Inr False, world [] None [])"
  using C10_no_division_by_zero[of 0 cfg_2_2_1 1 "world [] None []" 0]
  by (simp add: cfg_depth_0_def cfg_2_2_1_def create_tree.simps)

subsection \<open>Reading the invariant\<close>

lemma struct_inv_nodes:
  assumes "struct_inv N s"
  shows "\<exists>a rest. nodes (graph s) = (N + 1, a) # rest \<and> node_type a = Some 0 \<and>
           node_probability a = Some (- 1) \<and>
           map fst rest = [N + 2..node_counter s] \<and>
           (\<forall>(n, b) \<in> set rest. node_type b = Some 1 \<or> node_type b = Some 2)"
proof -
  from assms have ids: "map fst (nodes (graph s)) = [N + 1..node_counter s]"
    and le: "N + 1 \<le> node_counter s"
    and oks: "\<forall>(n, a) \<in> set (nodes (graph s)). node_ok N n a"
    by (simp_all add: struct_inv_def)
  have eq: "N + 2 = N + 1 + 1" by simp
  have u: "[N + 1..node_counter s] = (N + 1) # [N + 2..node_counter s]"
    unfolding eq using le by (rule upto_rec1)
  with ids obtain x rest where xr: "nodes (graph s) = x # rest" "fst x = N + 1"
    "map fst rest = [N + 2..node_counter s]"
    by (cases "nodes (graph s)") auto
  obtain a where x: "x = (N + 1, a)" using xr(2) by (cases x) auto
  from oks xr(1) x have "node_ok N (N + 1) a" by auto
  then have a: "node_type a = Some 0" "node_probability a = Some (- 1)"
    by (simp_all add: node_ok_def)
  have "node_type b = Some 1 \<or> node_type b = Some 2" if "(n, b) \<in> set rest" for n b
  proof -
    from that have "n \<in> set (map fst rest)" by force
    then have "n \<noteq> N + 1" by (simp add: xr(3))
    moreover from that oks xr(1) have "node_ok N n b" by auto
    ultimately show ?thesis by (auto simp: node_ok_def)
  qed
  with xr x a show ?thesis by blast
qed

lemma struct_inv_depth_0:
  assumes i: "struct_inv N s" and d: "depth_inv cfg N s" and m: "max_depth cfg = 0"
  shows "node_counter s = N + 1" and "edges (graph s) = []" and "length (nodes (graph s)) = 1"
proof -
  let ?c = "node_counter s"
  from i have ids: "map fst (nodes (graph s)) = [N + 1..?c]"
    and src: "map fst (edges (graph s)) = [N + 2..?c]"
    and le: "N + 1 \<le> ?c"
    by (simp_all add: struct_inv_def)
  show c: "?c = N + 1"
  proof (rule ccontr)
    assume "?c \<noteq> N + 1"
    with le have "?c \<in> set [N + 2..?c]" by simp
    then have "?c \<in> fst ` set (edges (graph s))" using src by (metis set_map)
    then obtain p where p: "map_of (edges (graph s)) ?c = Some p"
      by (metis map_of_eq_None_iff not_Some_eq)
    from le have "?c \<in> {N + 1..?c}" by simp
    with d obtain k where k: "node_depth (graph s) ?c k" "int k \<le> max_depth cfg"
      unfolding depth_inv_def by blast
    from k(1) p obtain j where "k = Suc j" by (cases rule: node_depth.cases) auto
    with k(2) m show False by simp
  qed
  from src c show "edges (graph s) = []" by simp
  from ids c have "length (map fst (nodes (graph s))) = 1" by simp
  then show "length (nodes (graph s)) = 1" by simp
qed

section \<open>Shape of a generated tree\<close>

text \<open>
  C5. For every valid configuration, \<^verbatim>\<open>generate_subgraph\<close> on the empty graph that
  \<^verbatim>\<open>reset\<close> leaves succeeds and exports its graph; the first node created is the TOP
  node and no other node is a TOP node; every node has a depth, which is at most
  \<^verbatim>\<open>max_depth\<close>; there is at least one node; and with \<^verbatim>\<open>max_depth = 0\<close> the graph is the
  TOP node alone, without edges.
\<close>

theorem C5_one_top_node_bounded_depth:
  assumes v: "valid_config cfg"
    and e: "nodes (graph s) = []" "edges (graph s) = []"
    and g: "generate_subgraph cfg s = (r, s')"
  shows "r = Inr () \<and>
         model_files s' = model_files s @ [(model_counter s + 1, graph s')] \<and>
         (\<exists>a rest. nodes (graph s') = (node_counter s + 1, a) # rest \<and> node_type a = Some 0 \<and>
            (\<forall>(n, b) \<in> set rest. node_type b \<noteq> Some 0)) \<and>
         tally_node_type 0 (graph s') = 1 \<and>
         (\<forall>(n, a) \<in> set (nodes (graph s')).
            \<exists>k. node_depth (graph s') n k \<and> int k \<le> max_depth cfg \<and>
                (\<forall>j. node_depth (graph s') n j \<longrightarrow> j = k)) \<and>
         1 \<le> length (nodes (graph s')) \<and>
         (max_depth cfg = 0 \<longrightarrow> length (nodes (graph s')) = 1 \<and> edges (graph s') = [])"
proof -
  let ?N = "node_counter s"
  from v have mm: "min_children cfg \<le> max_num_children cfg" and md: "0 \<le> max_depth cfg"
    by (simp_all add: valid_config_def)
  from generate_subgraph_inv[OF e, of cfg] g md
  have i: "struct_inv ?N s'" and d: "depth_inv cfg ?N s'" and ro: "res_ok cfg r"
    by simp_all
  from ro mm have r: "r = Inr ()" by (simp add: res_ok_def)
  from generate_subgraph_finished[OF e, of cfg] g r obtain s2 where
    s2: "s' = finish s2" "model_files s2 = model_files s" "model_counter s2 = model_counter s"
    by auto
  have mf: "model_files s' = model_files s @ [(model_counter s + 1, graph s')]"
    by (simp add: s2(1) finish_graph(6) s2(2,3))
  from struct_inv_nodes[OF i] obtain a rest where
    n: "nodes (graph s') = (?N + 1, a) # rest" "node_type a = Some 0"
    and rest: "\<forall>(n, b) \<in> set rest. node_type b = Some 1 \<or> node_type b = Some 2"
    by blast
  from rest have rest0: "\<forall>(n, b) \<in> set rest. node_type b \<noteq> Some 0" by auto
  then have "filter (\<lambda>(n, a). node_type a = Some 0) rest = []"
    by (auto simp: filter_empty_conv)
  then have t: "tally_node_type 0 (graph s') = 1" by (simp add: tally_node_type_def n)
  have dep: "\<forall>(n, a) \<in> set (nodes (graph s')).
            \<exists>k. node_depth (graph s') n k \<and> int k \<le> max_depth cfg \<and>
                (\<forall>j. node_depth (graph s') n j \<longrightarrow> j = k)"
  proof (clarify)
    fix n b assume "(n, b) \<in> set (nodes (graph s'))"
    then have "n \<in> set (map fst (nodes (graph s')))" by force
    with i have "n \<in> {?N + 1..node_counter s'}" by (simp add: struct_inv_def)
    with d obtain k where k: "node_depth (graph s') n k" "int k \<le> max_depth cfg"
      unfolding depth_inv_def by blast
    with node_depth_unique[OF _ k(1)]
    show "\<exists>k. node_depth (graph s') n k \<and> int k \<le> max_depth cfg \<and>
                (\<forall>j. node_depth (graph s') n j \<longrightarrow> j = k)" by blast
  qed
  have z: "max_depth cfg = 0 \<longrightarrow> length (nodes (graph s')) = 1 \<and> edges (graph s') = []"
    using struct_inv_depth_0[OF i d] by simp
  from r mf n rest0 t dep z show ?thesis by simp
qed

theorem C5_witness:
  "valid_config cfg_depth_0 \<and> nodes (graph (world [] None [])) = [] \<and>
   edges (graph (world [] None [])) = [] \<and>
   fst (generate_subgraph cfg_depth_0 (world [] None [])) = Inr () \<and>
   length (nodes (graph (snd (generate_subgraph cfg_depth_0 (world [] None []))))) = 1 \<and>
   edges (graph (snd (generate_subgraph cfg_depth_0 (world [] None [])))) = []"
  using C5_one_top_node_bounded_depth[of cfg_depth_0 "world [] None []"
      "fst (generate_subgraph cfg_depth_0 (world [] None []))"
      "snd (generate_subgraph cfg_depth_0 (world [] None []))"]
  by (simp add: valid_config_def cfg_depth_0_def world_def DiGraph_def)

subsection \<open>Counting edges at a node\<close>

lemma length_filter_count:
  "length (filter (\<lambda>e. f e = x) es) = count_list (map f es) x"
  by (induction es) auto

lemma count_list_distinct:
  "distinct xs \<Longrightarrow> count_list xs x = (if x \<in> set xs then 1 else 0)"
  by (induction xs) auto

lemma sum_list_indicator:
  "(\<Sum>x\<leftarrow>xs. if y = x then 1 else 0) = int (count_list xs y)"
  by (induction xs) auto

lemma sum_degrees:
  assumes "distinct xs" and "\<forall>e \<in> set es. f e \<in> set xs"
  shows "(\<Sum>x\<leftarrow>xs. int (length (filter (\<lambda>e. f e = x) es))) = int (length es)"
  using assms(2)
proof (induction es)
  case Nil
  show ?case by simp
next
  case (Cons e es)
  have "(\<Sum>x\<leftarrow>xs. int (length (filter (\<lambda>e. f e = x) (e # es)))) =
        (\<Sum>x\<leftarrow>xs. (if f e = x then 1 else 0) + int (length (filter (\<lambda>e. f e = x) es)))"
    by (rule arg_cong[where f = sum_list]) (rule map_cong, simp_all)
  also have "\<dots> = (\<Sum>x\<leftarrow>xs. if f e = x then 1 else 0) +
                   (\<Sum>x\<leftarrow>xs. int (length (filter (\<lambda>e. f e = x) es)))"
    by (rule sum_list_addf)
  also have "(\<Sum>x\<leftarrow>xs. if f e = x then 1 else 0) = (1::int)"
    using Cons.prems assms(1) by (simp add: sum_list_indicator count_list_distinct)
  also have "(\<Sum>x\<leftarrow>xs. int (length (filter (\<lambda>e. f e = x) es))) = int (length es)"
    using Cons by simp
  finally show ?case by simp
qed

section \<open>Edges and degrees\<close>

text \<open>
  C6. In every graph that \<^verbatim>\<open>generate_subgraph\<close> completes (from the empty graph that
  \<^verbatim>\<open>reset\<close> leaves), the edges are one per node other than the root, in the order of
  creation of these nodes, each from the node to a node created before it; so there is
  one edge less than there are nodes, the root has out-degree 0 and every other node
  out-degree 1. The attributes \<^verbatim>\<open>in_degree\<close> and \<^verbatim>\<open>out_degree\<close> stored by
  \<^verbatim>\<open>calculate_in_and_out_degrees\<close> are the degrees in the graph, and each of them sums
  over the nodes to the number of edges.
\<close>

theorem C6_edges_and_degrees:
  assumes e: "nodes (graph s) = []" "edges (graph s) = []"
    and g: "generate_subgraph cfg s = (Inr (), s')"
  shows "length (edges (graph s')) + 1 = length (nodes (graph s')) \<and>
         map fst (edges (graph s')) = tl (map fst (nodes (graph s'))) \<and>
         hd (map fst (nodes (graph s'))) = node_counter s + 1 \<and>
         distinct (map fst (nodes (graph s'))) \<and>
         (\<forall>(u, v) \<in> set (edges (graph s')). v \<in> fst ` set (nodes (graph s')) \<and> v < u) \<and>
         (\<forall>(n, a) \<in> set (nodes (graph s')).
            out_degree_of (graph s') n = (if n = node_counter s + 1 then 0 else 1) \<and>
            out_degree a = Some (out_degree_of (graph s') n) \<and>
            in_degree a = Some (in_degree_of (graph s') n)) \<and>
         (\<Sum>(n, a)\<leftarrow>nodes (graph s'). in_degree_of (graph s') n) = int (length (edges (graph s'))) \<and>
         (\<Sum>(n, a)\<leftarrow>nodes (graph s'). out_degree_of (graph s') n) = int (length (edges (graph s')))"
proof -
  let ?N = "node_counter s" and ?c = "node_counter s'" and ?g = "graph s'"
  from generate_subgraph_inv(1)[OF e, of cfg] g have i: "struct_inv ?N s'" by simp
  then have ids: "map fst (nodes ?g) = [?N + 1..?c]"
    and src: "map fst (edges ?g) = [?N + 2..?c]"
    and le: "?N + 1 \<le> ?c"
    and ord: "\<forall>(u, v) \<in> set (edges ?g). ?N + 1 \<le> v \<and> v < u"
    by (simp_all add: struct_inv_def)
  from generate_subgraph_finished[OF e, of cfg] g obtain s2 where s2: "s' = finish s2" by auto
  have eq: "?N + 2 = ?N + 1 + 1" by simp
  have u: "[?N + 1..?c] = (?N + 1) # [?N + 2..?c]"
    unfolding eq using le by (rule upto_rec1)
  have 1: "length (edges ?g) + 1 = length (nodes ?g)"
  proof -
    have "length (map fst (edges ?g)) + 1 = length (map fst (nodes ?g))"
      unfolding ids src u by simp
    then show ?thesis by simp
  qed
  have 2: "map fst (edges ?g) = tl (map fst (nodes ?g))" by (simp add: ids src u)
  have 3: "hd (map fst (nodes ?g)) = ?N + 1" by (simp add: ids u)
  have 4: "distinct (map fst (nodes ?g))" by (simp add: ids)
  have srcs: "fst ` set (edges ?g) = set [?N + 2..?c]" using src by (metis set_map)
  have idset: "fst ` set (nodes ?g) = set [?N + 1..?c]" using ids by (metis set_map)
  have 5: "\<forall>(u, v) \<in> set (edges ?g). v \<in> fst ` set (nodes ?g) \<and> v < u"
  proof (clarify)
    fix u v assume uv: "(u, v) \<in> set (edges ?g)"
    then have "u \<in> fst ` set (edges ?g)" by force
    then have "u \<le> ?c" using srcs by simp
    moreover from ord uv have "?N + 1 \<le> v" "v < u" by auto
    ultimately show "v \<in> fst ` set (nodes ?g) \<and> v < u" by (simp add: idset)
  qed
  have od: "out_degree_of ?g n = (if n \<in> set [?N + 2..?c] then 1 else 0)" for n
    by (simp add: out_degree_of_def length_filter_count src count_list_distinct)
  have 6: "\<forall>(n, a) \<in> set (nodes ?g).
            out_degree_of ?g n = (if n = ?N + 1 then 0 else 1) \<and>
            out_degree a = Some (out_degree_of ?g n) \<and>
            in_degree a = Some (in_degree_of ?g n)"
  proof (clarify)
    fix n a assume na: "(n, a) \<in> set (nodes ?g)"
    then have "n \<in> fst ` set (nodes ?g)" by force
    then have "?N + 1 \<le> n" "n \<le> ?c" using idset by simp_all
    then have "out_degree_of ?g n = (if n = ?N + 1 then 0 else 1)" by (simp add: od)
    moreover from na finish_degrees[of n a s2] s2
    have "out_degree a = Some (out_degree_of ?g n)" "in_degree a = Some (in_degree_of ?g n)"
      by simp_all
    ultimately show "out_degree_of ?g n = (if n = ?N + 1 then 0 else 1) \<and>
            out_degree a = Some (out_degree_of ?g n) \<and>
            in_degree a = Some (in_degree_of ?g n)" by simp
  qed
  have tg: "\<forall>e \<in> set (edges ?g). snd e \<in> set (map fst (nodes ?g))"
    using 5 by (auto simp: idset ids)
  have sg: "\<forall>e \<in> set (edges ?g). fst e \<in> set (map fst (nodes ?g))"
  proof
    fix e assume "e \<in> set (edges ?g)"
    then have "fst e \<in> fst ` set (edges ?g)" by simp
    then have "fst e \<in> set [?N + 2..?c]" using srcs by simp
    then show "fst e \<in> set (map fst (nodes ?g))" by (simp add: ids)
  qed
  have 7: "(\<Sum>(n, a)\<leftarrow>nodes ?g. in_degree_of ?g n) = int (length (edges ?g))"
  proof -
    have "(\<Sum>(n, a)\<leftarrow>nodes ?g. in_degree_of ?g n) =
          (\<Sum>n\<leftarrow>map fst (nodes ?g). in_degree_of ?g n)"
      by (simp add: comp_def case_prod_unfold)
    also have "\<dots> = int (length (edges ?g))"
      unfolding in_degree_of_def by (rule sum_degrees[OF 4 tg])
    finally show ?thesis .
  qed
  have 8: "(\<Sum>(n, a)\<leftarrow>nodes ?g. out_degree_of ?g n) = int (length (edges ?g))"
  proof -
    have "(\<Sum>(n, a)\<leftarrow>nodes ?g. out_degree_of ?g n) =
          (\<Sum>n\<leftarrow>map fst (nodes ?g). out_degree_of ?g n)"
      by (simp add: comp_def case_prod_unfold)
    also have "\<dots> = int (length (edges ?g))"
      unfolding out_degree_of_def by (rule sum_degrees[OF 4 sg])
    finally show ?thesis .
  qed
  from 1 2 3 4 5 6 7 8 show ?thesis by blast
qed

theorem C6_witness:
  "nodes (graph (world [] None [])) = [] \<and> edges (graph (world [] None [])) = [] \<and>
   fst (generate_subgraph cfg_2_2_1 (world [] None [])) = Inr () \<and>
   edges (graph (snd (generate_subgraph cfg_2_2_1 (world [] None [])))) = [(2, 1), (3, 1)] \<and>
   length (edges (graph (snd (generate_subgraph cfg_2_2_1 (world [] None []))))) + 1 =
     length (nodes (graph (snd (generate_subgraph cfg_2_2_1 (world [] None [])))))"
proof -
  have r1: "fst (generate_subgraph cfg_2_2_1 (world [] None [])) = Inr ()"
    by (simp add: cfg_2_2_1_def run_defs file_defs final_defs rand_defs graph_defs build_defs
        loop_simps Let_def)
  then have r: "generate_subgraph cfg_2_2_1 (world [] None []) =
           (Inr (), snd (generate_subgraph cfg_2_2_1 (world [] None [])))"
    by (metis prod.collapse)
  have e: "edges (graph (snd (generate_subgraph cfg_2_2_1 (world [] None [])))) = [(2, 1), (3, 1)]"
    by (simp add: cfg_2_2_1_def run_defs file_defs final_defs rand_defs graph_defs build_defs
        loop_simps Let_def)
  have h: "nodes (graph (world [] None [])) = []" "edges (graph (world [] None [])) = []"
    by (simp_all add: world_def DiGraph_def)
  from C6_edges_and_degrees[OF h r]
  have "length (edges (graph (snd (generate_subgraph cfg_2_2_1 (world [] None []))))) + 1 =
     length (nodes (graph (snd (generate_subgraph cfg_2_2_1 (world [] None [])))))"
    by (rule conjunct1)
  with r1 e h show ?thesis by blast
qed

section \<open>Meta data\<close>

lemma tally_sum:
  assumes "\<forall>(n, a) \<in> set xs. node_type a = Some 0 \<or> node_type a = Some 1 \<or> node_type a = Some 2"
  shows "length (filter (\<lambda>(n, a). node_type a = Some 0) xs) +
         length (filter (\<lambda>(n, a). node_type a = Some 1) xs) +
         length (filter (\<lambda>(n, a). node_type a = Some 2) xs) = length xs"
  using assms by (induction xs) auto

lemma struct_inv_count:
  assumes "struct_inv N s"
  shows "node_counter s = N + int (length (nodes (graph s)))"
    and "tally_node_type 0 (graph s) = 1"
    and "tally_node_type 1 (graph s) + tally_node_type 2 (graph s) + 1 =
         int (length (nodes (graph s)))"
proof -
  from assms have ids: "map fst (nodes (graph s)) = [N + 1..node_counter s]"
    and le: "N + 1 \<le> node_counter s"
    by (simp_all add: struct_inv_def)
  have "length (map fst (nodes (graph s))) = nat (node_counter s - N)"
    unfolding ids by simp
  then show "node_counter s = N + int (length (nodes (graph s)))" using le by simp
  from struct_inv_nodes[OF assms] obtain a rest where
    n: "nodes (graph s) = (N + 1, a) # rest" "node_type a = Some 0"
    and rest: "\<forall>(n, b) \<in> set rest. node_type b = Some 1 \<or> node_type b = Some 2"
    by blast
  from rest have "filter (\<lambda>(n, a). node_type a = Some 0) rest = []"
    by (auto simp: filter_empty_conv)
  then show t0: "tally_node_type 0 (graph s) = 1" by (simp add: tally_node_type_def n)
  have "\<forall>(n, a) \<in> set (nodes (graph s)).
          node_type a = Some 0 \<or> node_type a = Some 1 \<or> node_type a = Some 2"
    using n rest by auto
  from tally_sum[OF this]
  have "tally_node_type 0 (graph s) + tally_node_type 1 (graph s) + tally_node_type 2 (graph s) =
        int (length (nodes (graph s)))"
    unfolding tally_node_type_def by linarith
  with t0 show "tally_node_type 1 (graph s) + tally_node_type 2 (graph s) + 1 =
         int (length (nodes (graph s)))" by simp
qed

text \<open>
  C2. The claim: the meta data of every generated graph satisfy
  \<^verbatim>\<open>num_intermediate_nodes + num_leaf_nodes + 1 == num_nodes\<close> and
  \<^verbatim>\<open>num_and_gates + num_or_gates == num_intermediate_nodes + 1\<close>. The first equation
  fails whenever the persisted node counter is not 0 at the start of the graph, because
  \<^verbatim>\<open>add_meta_data\<close> stores the counter of the whole run as \<^verbatim>\<open>num_nodes\<close>: with
  \<^verbatim>\<open>max_depth = 0\<close> and a counters file that holds \<^verbatim>\<open>num_nodes=5\<close> the graph has one node
  and \<^verbatim>\<open>num_nodes\<close> is 6.
\<close>

theorem C2_counterexample:
  "\<not> meta_data_claim (attrs (graph (snd (FaultTreeDatasetGenerator cfg_depth_0
        (world [] (Some ''num_models=0;num_nodes=5'') [])))))"
  by (simp add: meta_data_claim_def cfg_depth_0_def run_defs file_defs final_defs rand_defs
      graph_defs build_defs loop_simps Let_def strip_def is_space_def parse_pair_def
      int_of_str_def is_digit_def nat_of_digits_def str_int_def str_nat.simps)

text \<open>
  C2, as amended. For every graph that \<^verbatim>\<open>generate_subgraph\<close> completes, started at
  counter \<open>N\<close>: \<^verbatim>\<open>num_top_nodes\<close> is 1; \<^verbatim>\<open>num_intermediate_nodes\<close>, \<^verbatim>\<open>num_leaf_nodes\<close>,
  \<^verbatim>\<open>num_and_gates\<close> and \<^verbatim>\<open>num_or_gates\<close> are the tallies of the nodes of the graph by node
  type and gate type; \<^verbatim>\<open>num_intermediate_nodes + num_leaf_nodes + 1\<close> is the number of
  nodes of the graph; and \<^verbatim>\<open>num_nodes\<close> is \<open>N\<close> plus that number.
\<close>

theorem C2_meta_data:
  assumes e: "nodes (graph s) = []" "edges (graph s) = []"
    and g: "generate_subgraph cfg s = (Inr (), s')"
  shows "num_top_nodes (attrs (graph s')) = Some 1 \<and>
         num_intermediate_nodes (attrs (graph s')) = Some (tally_node_type 1 (graph s')) \<and>
         num_leaf_nodes (attrs (graph s')) = Some (tally_node_type 2 (graph s')) \<and>
         num_and_gates (attrs (graph s')) = Some (tally_gate_type 1 (graph s')) \<and>
         num_or_gates (attrs (graph s')) = Some (tally_gate_type 2 (graph s')) \<and>
         tally_node_type 1 (graph s') + tally_node_type 2 (graph s') + 1 =
           int (length (nodes (graph s'))) \<and>
         num_nodes (attrs (graph s')) =
           Some (node_counter s + (tally_node_type 1 (graph s') + tally_node_type 2 (graph s') + 1))"
proof -
  from generate_subgraph_inv(1)[OF e, of cfg] g have i: "struct_inv (node_counter s) s'" by simp
  from generate_subgraph_finished[OF e, of cfg] g obtain s2 where s2: "s' = finish s2" by auto
  note c = struct_inv_count[OF i]
  have "num_nodes (attrs (graph s')) = Some (node_counter s')" by (simp add: s2 finish_meta)
  with c have "num_nodes (attrs (graph s')) =
           Some (node_counter s + (tally_node_type 1 (graph s') + tally_node_type 2 (graph s') + 1))"
    by simp
  moreover have "num_top_nodes (attrs (graph s')) = Some 1"
    using c(2) by (simp add: s2 finish_meta)
  ultimately show ?thesis using c(3) by (simp add: s2 finish_meta)
qed

theorem C2_witness:
  "nodes (graph (world [] None [])) = [] \<and> edges (graph (world [] None [])) = [] \<and>
   fst (generate_subgraph cfg_2_2_1 (world [] None [])) = Inr () \<and>
   num_top_nodes (attrs (graph (snd (generate_subgraph cfg_2_2_1 (world [] None []))))) = Some 1"
proof -
  have r1: "fst (generate_subgraph cfg_2_2_1 (world [] None [])) = Inr ()"
    by (simp add: cfg_2_2_1_def run_defs file_defs final_defs rand_defs graph_defs build_defs
        loop_simps Let_def)
  then have r: "generate_subgraph cfg_2_2_1 (world [] None []) =
           (Inr (), snd (generate_subgraph cfg_2_2_1 (world [] None [])))"
    by (metis prod.collapse)
  have h: "nodes (graph (world [] None [])) = []" "edges (graph (world [] None [])) = []"
    by (simp_all add: world_def DiGraph_def)
  from C2_meta_data[OF h r]
  have "num_top_nodes (attrs (graph (snd (generate_subgraph cfg_2_2_1 (world [] None []))))) =
        Some 1"
    by (rule conjunct1)
  with r1 h show ?thesis by blast
qed

section \<open>Leaf probabilities\<close>

lemma random_uniform_0_1: "fst (random_uniform 0 1 s) = fst (random_random s)"
  by (simp add: random_uniform_def split_beta)

lemma create_node_leaf:
  assumes "\<not> has_node (graph s) (node_counter s + 1)"
  shows "\<exists>a. nodes (graph (snd (create_node 2 g pr s))) = nodes (graph s) @ [(node_counter s + 1, a)] \<and>
             node_probability a = Some (fst (biased_random_low_number s))"
proof -
  obtain t where t: "snd (biased_random_low_number s) = s\<lparr>tape := t\<rparr>"
    using biased_state[of s] by blast
  have gs: "(case g of None \<Rightarrow> (if (2::int) = 2 then (0, s) else random_choice_1_2 s)
                     | Some x \<Rightarrow> (x, s)) = (case g of None \<Rightarrow> 0 | Some x \<Rightarrow> x, s)"
    by (cases g) simp_all
  show ?thesis
    using assms
    by (simp add: create_node_def gs split_beta Let_def t add_node_def has_node_def)
qed

text \<open>
  C8. The claim: every LEAF node stores a probability strictly inside the open interval
  (0,1). The sampler returns \<open>u ^ 10\<close> for the draw \<open>u\<close> of \<^verbatim>\<open>random.uniform(0, 1)\<close>, and this draw
  can be 0: on the random source that yields 0 the leaves of the graph store the
  probability 0.
\<close>

theorem C8_counterexample:
  "node_type (snd (last (nodes (graph (snd (generate_subgraph cfg_2_2_1 (world [] None []))))))) =
     Some 2 \<and>
   node_probability (snd (last (nodes (graph (snd (generate_subgraph cfg_2_2_1
     (world [] None []))))))) = Some 0"
  by (simp add: cfg_2_2_1_def run_defs file_defs final_defs rand_defs graph_defs build_defs
      loop_simps Let_def)

text \<open>
  C8, as amended. The sampler returns \<open>u ^ 10\<close> where \<open>u\<close> is the draw of
  \<^verbatim>\<open>random.uniform(0, 1)\<close>, with \<open>0 \<le> u < 1\<close>, so the sample lies in the half-open interval
  [0,1); \<^verbatim>\<open>create_node\<close> stores this sample as the probability of a LEAF node it
  creates; and in every graph that \<^verbatim>\<open>generate_subgraph\<close> builds, whether it completes or
  not, every LEAF node stores a probability in [0,1) and every other node stores -1.
\<close>

theorem C8_leaf_probability:
  assumes e: "nodes (graph s) = []" "edges (graph s) = []"
  shows "(\<forall>w. fst (biased_random_low_number w) = fst (random_uniform 0 1 w) ^ 10 \<and>
              0 \<le> fst (random_uniform 0 1 w) \<and> fst (random_uniform 0 1 w) < 1 \<and>
              0 \<le> fst (biased_random_low_number w) \<and> fst (biased_random_low_number w) < 1) \<and>
         (\<forall>(w::gen) g pr. \<not> has_node (graph w) (node_counter w + 1) \<longrightarrow>
              (\<exists>a. nodes (graph (snd (create_node 2 g pr w))) =
                      nodes (graph w) @ [(node_counter w + 1, a)] \<and>
                   node_probability a = Some (fst (biased_random_low_number w)))) \<and>
         (\<forall>(n, a) \<in> set (nodes (graph (snd (generate_subgraph cfg s)))).
              if node_type a = Some 2
              then \<exists>x. node_probability a = Some x \<and> 0 \<le> x \<and> x < 1
              else node_probability a = Some (- 1))"
proof (intro conjI allI impI)
  fix w
  show "fst (biased_random_low_number w) = fst (random_uniform 0 1 w) ^ 10"
    by (simp add: biased_value random_uniform_0_1)
  show "0 \<le> fst (random_uniform 0 1 w)" "fst (random_uniform 0 1 w) < 1"
    using random_random_range[of w] by (simp_all add: random_uniform_0_1)
  show "0 \<le> fst (biased_random_low_number w)" "fst (biased_random_low_number w) < 1"
    using biased_range[of w] by simp_all
next
  fix w :: gen and g pr
  assume "\<not> has_node (graph w) (node_counter w + 1)"
  then show "\<exists>a. nodes (graph (snd (create_node 2 g pr w))) =
                      nodes (graph w) @ [(node_counter w + 1, a)] \<and>
                   node_probability a = Some (fst (biased_random_low_number w))"
    by (rule create_node_leaf)
next
  let ?s' = "snd (generate_subgraph cfg s)"
  from generate_subgraph_inv(1)[OF e, of cfg]
  have oks: "\<forall>(n, a) \<in> set (nodes (graph ?s')). node_ok (node_counter s) n a"
    by (simp add: struct_inv_def)
  show "\<forall>(n, a) \<in> set (nodes (graph ?s')).
              if node_type a = Some 2
              then \<exists>x. node_probability a = Some x \<and> 0 \<le> x \<and> x < 1
              else node_probability a = Some (- 1)"
  proof (clarify)
    fix n a assume "(n, a) \<in> set (nodes (graph ?s'))"
    with oks have "node_ok (node_counter s) n a" by auto
    then show "if node_type a = Some 2
              then \<exists>x. node_probability a = Some x \<and> 0 \<le> x \<and> x < 1
              else node_probability a = Some (- 1)"
      by (auto simp: node_ok_def split: if_splits)
  qed
qed

theorem C8_witness:
  "nodes (graph (world [] None [])) = [] \<and> edges (graph (world [] None [])) = [] \<and>
   \<not> has_node (graph (world [] None [])) (node_counter (world [] None []) + 1) \<and>
   fst (biased_random_low_number (world [3 * 2 ^ 51] None [])) = (3 / 4) ^ 10 \<and>
   fst (biased_random_low_number (world [3 * 2 ^ 51] None [])) < 1"
proof -
  have h: "nodes (graph (world [] None [])) = []" "edges (graph (world [] None [])) = []"
    by (simp_all add: world_def DiGraph_def)
  have n: "\<not> has_node (graph (world [] None [])) (node_counter (world [] None []) + 1)"
    by (simp add: world_def DiGraph_def has_node_def)
  have u: "fst (random_uniform 0 1 (world [3 * 2 ^ 51] None [])) = 3 / 4"
    by (simp add: world_def rand_defs split_beta Let_def)
  from C8_leaf_probability[OF h, of cfg_2_2_1]
  have "\<forall>w. fst (biased_random_low_number w) = fst (random_uniform 0 1 w) ^ 10 \<and>
              0 \<le> fst (random_uniform 0 1 w) \<and> fst (random_uniform 0 1 w) < 1 \<and>
              0 \<le> fst (biased_random_low_number w) \<and> fst (biased_random_low_number w) < 1"
    by (rule conjunct1)
  then have "fst (biased_random_low_number (world [3 * 2 ^ 51] None [])) =
             fst (random_uniform 0 1 (world [3 * 2 ^ 51] None [])) ^ 10 \<and>
             fst (biased_random_low_number (world [3 * 2 ^ 51] None [])) < 1"
    by blast
  then have b0: "fst (biased_random_low_number (world [3 * 2 ^ 51] None [])) =
             fst (random_uniform 0 1 (world [3 * 2 ^ 51] None [])) ^ 10"
    and c: "fst (biased_random_low_number (world [3 * 2 ^ 51] None [])) < 1"
    by blast+
  from b0 have b: "fst (biased_random_low_number (world [3 * 2 ^ 51] None [])) = (3 / 4) ^ 10"
    by (simp only: u)
  from h n b c show ?thesis by blast
qed

section \<open>Parameters that are not validated\<close>

lemma generate_subgraph_min_above_max:
  assumes e: "nodes (graph s) = []" "edges (graph s) = []"
    and c: "max_num_children cfg < min_children cfg" "0 < max_depth cfg"
  shows "fst (generate_subgraph cfg s) = Inl ValueError"
    and "map fst (nodes (graph (snd (generate_subgraph cfg s)))) = [node_counter s + 1]"
    and "edges (graph (snd (generate_subgraph cfg s))) = []"
    and "model_files (snd (generate_subgraph cfg s)) = model_files s"
proof -
  let ?N = "node_counter s"
  from top_node[OF e] obtain t a where
    cn: "create_node 0 None (- 1) s =
           (?N + 1, s\<lparr>tape := t, graph := (graph s)\<lparr>nodes := [(?N + 1, a)]\<rparr>,
              node_counter := ?N + 1\<rparr>)"
    by blast
  let ?s1 = "s\<lparr>tape := t, graph := (graph s)\<lparr>nodes := [(?N + 1, a)]\<rparr>, node_counter := ?N + 1\<rparr>"
  have r: "randint (min_children cfg) (max_num_children cfg) ?s1 = (Inl ValueError, ?s1)"
    using c(1) by (simp add: randint_def)
  have d: "\<not> max_depth cfg \<le> 0" using c(2) by simp
  have ct: "create_tree cfg (?N + 1) 0 ?s1 = (Inl ValueError, ?s1)"
    using create_tree_unfold[OF d r, of "?N + 1"] by simp
  have g: "generate_subgraph cfg s = (Inl ValueError, ?s1)"
    using generate_subgraph_unfold[OF cn ct] by simp
  show "fst (generate_subgraph cfg s) = Inl ValueError" by (simp add: g)
  show "map fst (nodes (graph (snd (generate_subgraph cfg s)))) = [node_counter s + 1]"
    by (simp add: g)
  show "edges (graph (snd (generate_subgraph cfg s))) = []" by (simp add: g e)
  show "model_files (snd (generate_subgraph cfg s)) = model_files s" by (simp add: g)
qed

lemma generate_subgraph_no_depth:
  assumes e: "nodes (graph s) = []" "edges (graph s) = []"
    and c: "max_depth cfg \<le> 0"
  shows "fst (generate_subgraph cfg s) = Inr ()"
    and "map fst (nodes (graph (snd (generate_subgraph cfg s)))) = [node_counter s + 1]"
    and "edges (graph (snd (generate_subgraph cfg s))) = []"
    and "length (model_files (snd (generate_subgraph cfg s))) = length (model_files s) + 1"
proof -
  let ?N = "node_counter s"
  from top_node[OF e] obtain t a where
    cn: "create_node 0 None (- 1) s =
           (?N + 1, s\<lparr>tape := t, graph := (graph s)\<lparr>nodes := [(?N + 1, a)]\<rparr>,
              node_counter := ?N + 1\<rparr>)"
    by blast
  let ?s1 = "s\<lparr>tape := t, graph := (graph s)\<lparr>nodes := [(?N + 1, a)]\<rparr>, node_counter := ?N + 1\<rparr>"
  have ct: "create_tree cfg (?N + 1) 0 ?s1 = (Inr (), ?s1)"
    using c by (simp add: create_tree.simps)
  have g: "generate_subgraph cfg s = (Inr (), finish ?s1)"
    using generate_subgraph_unfold[OF cn ct] by simp
  show "fst (generate_subgraph cfg s) = Inr ()" by (simp add: g)
  show "map fst (nodes (graph (snd (generate_subgraph cfg s)))) = [node_counter s + 1]"
    by (simp add: g finish_graph)
  show "edges (graph (snd (generate_subgraph cfg s))) = []" by (simp add: g finish_graph e)
  show "length (model_files (snd (generate_subgraph cfg s))) = length (model_files s) + 1"
    by (simp add: g finish_graph(6))
qed

text \<open>
  C4. The claim: every invalid combination of parameters raises a configuration error
  before any node is created. The constructor validates nothing. With
  \<^verbatim>\<open>max_depth = -1\<close> and \<^verbatim>\<open>min_children = 3 > max_num_children = 2\<close> the run completes and
  exports one graph; with \<^verbatim>\<open>max_depth = 1\<close> and the same fan-out bounds the
  \<^verbatim>\<open>ValueError\<close> of \<^verbatim>\<open>random.randint\<close> is raised inside \<^verbatim>\<open>create_tree\<close>, after the top node 1 was
  created.
\<close>

theorem C4_counterexample:
  "fst (FaultTreeDatasetGenerator cfg_negative_depth (world [] None [])) = Inr () \<and>
   length (model_files (snd (FaultTreeDatasetGenerator cfg_negative_depth (world [] None [])))) = 1 \<and>
   fst (FaultTreeDatasetGenerator cfg_min_above_max (world [] None [])) = Inl ValueError \<and>
   map fst (nodes (graph (snd (FaultTreeDatasetGenerator cfg_min_above_max (world [] None []))))) =
     [1]"
  by (simp add: cfg_negative_depth_def cfg_min_above_max_def run_defs file_defs final_defs
      rand_defs graph_defs build_defs loop_simps Let_def strip_def is_space_def parse_pair_def
      int_of_str_def is_digit_def nat_of_digits_def str_int_def str_nat.simps)

text \<open>
  C4, as amended. The parameters are not validated, and what they do to one graph is:
  if \<^verbatim>\<open>min_children > max_num_children\<close> and \<^verbatim>\<open>max_depth > 0\<close>, \<^verbatim>\<open>generate_subgraph\<close> raises
  \<^verbatim>\<open>ValueError\<close> when the top node, and only it, has been created, and nothing is exported;
  if \<^verbatim>\<open>max_depth \<le> 0\<close> (negative included), it completes with a graph of the top node
  alone, whatever the fan-out bounds are; if \<^verbatim>\<open>min_children \<le> max_num_children\<close>, it
  completes; and a run with \<^verbatim>\<open>num_graphs \<le> 0\<close> does nothing.
\<close>

theorem C4_unvalidated_parameters:
  assumes e: "nodes (graph s) = []" "edges (graph s) = []"
  shows "(max_num_children cfg < min_children cfg \<and> 0 < max_depth cfg \<longrightarrow>
            fst (generate_subgraph cfg s) = Inl ValueError \<and>
            map fst (nodes (graph (snd (generate_subgraph cfg s)))) = [node_counter s + 1] \<and>
            edges (graph (snd (generate_subgraph cfg s))) = [] \<and>
            model_files (snd (generate_subgraph cfg s)) = model_files s) \<and>
         (max_depth cfg \<le> 0 \<longrightarrow>
            fst (generate_subgraph cfg s) = Inr () \<and>
            map fst (nodes (graph (snd (generate_subgraph cfg s)))) = [node_counter s + 1] \<and>
            edges (graph (snd (generate_subgraph cfg s))) = [] \<and>
            length (model_files (snd (generate_subgraph cfg s))) = length (model_files s) + 1) \<and>
         (min_children cfg \<le> max_num_children cfg \<longrightarrow>
            fst (generate_subgraph cfg s) = Inr ()) \<and>
         (num_graphs cfg \<le> 0 \<longrightarrow> FaultTreeDatasetGenerator cfg s = (Inr (), s))"
proof (intro conjI impI)
  assume "max_num_children cfg < min_children cfg \<and> 0 < max_depth cfg"
  then have c: "max_num_children cfg < min_children cfg" "0 < max_depth cfg" by simp_all
  note m = generate_subgraph_min_above_max[OF e c]
  show "fst (generate_subgraph cfg s) = Inl ValueError" by (rule m(1))
  show "map fst (nodes (graph (snd (generate_subgraph cfg s)))) = [node_counter s + 1]"
    by (rule m(2))
  show "edges (graph (snd (generate_subgraph cfg s))) = []" by (rule m(3))
  show "model_files (snd (generate_subgraph cfg s)) = model_files s" by (rule m(4))
next
  assume c: "max_depth cfg \<le> 0"
  note m = generate_subgraph_no_depth[OF e c]
  show "fst (generate_subgraph cfg s) = Inr ()" by (rule m(1))
  show "map fst (nodes (graph (snd (generate_subgraph cfg s)))) = [node_counter s + 1]"
    by (rule m(2))
  show "edges (graph (snd (generate_subgraph cfg s))) = []" by (rule m(3))
  show "length (model_files (snd (generate_subgraph cfg s))) = length (model_files s) + 1"
    by (rule m(4))
next
  assume "min_children cfg \<le> max_num_children cfg"
  with generate_subgraph_inv(3)[OF e, of cfg]
  show "fst (generate_subgraph cfg s) = Inr ()" by (simp add: res_ok_def)
next
  assume "num_graphs cfg \<le> 0"
  then show "FaultTreeDatasetGenerator cfg s = (Inr (), s)"
    by (simp add: FaultTreeDatasetGenerator_def)
qed

theorem C4_witness:
  "nodes (graph (world [] None [])) = [] \<and> edges (graph (world [] None [])) = [] \<and>
   max_num_children cfg_min_above_max < min_children cfg_min_above_max \<and>
   0 < max_depth cfg_min_above_max \<and>
   fst (generate_subgraph cfg_min_above_max (world [] None [])) = Inl ValueError \<and>
   max_depth cfg_negative_depth \<le> 0 \<and>
   fst (generate_subgraph cfg_negative_depth (world [] None [])) = Inr () \<and>
   min_children cfg_main \<le> max_num_children cfg_main \<and>
   fst (generate_subgraph cfg_main (world [] None [])) = Inr ()"
proof -
  have h: "nodes (graph (world [] None [])) = []" "edges (graph (world [] None [])) = []"
    by (simp_all add: world_def DiGraph_def)
  have a: "max_num_children cfg_min_above_max < min_children cfg_min_above_max \<and>
           0 < max_depth cfg_min_above_max"
    by (simp add: cfg_min_above_max_def)
  have b: "max_depth cfg_negative_depth \<le> 0" by (simp add: cfg_negative_depth_def)
  have c: "min_children cfg_main \<le> max_num_children cfg_main" by (simp add: cfg_main_def)
  from C4_unvalidated_parameters[OF h, of cfg_min_above_max] a
  have 1: "fst (generate_subgraph cfg_min_above_max (world [] None [])) = Inl ValueError"
    by blast
  from C4_unvalidated_parameters[OF h, of cfg_negative_depth] b
  have 2: "fst (generate_subgraph cfg_negative_depth (world [] None [])) = Inr ()"
    by blast
  from C4_unvalidated_parameters[OF h, of cfg_main] c
  have 3: "fst (generate_subgraph cfg_main (world [] None [])) = Inr ()"
    by blast
  from h a b c 1 2 3 show ?thesis by blast
qed

section \<open>Reading the counters file\<close>

lemma read_pairs_result:
  "read_pairs ps data out =
     (data ++ map_of (rev (map (\<lambda>p. projr (parse_pair p)) (filter (\<lambda>p. \<not> isl (parse_pair p)) ps))),
      out @ map Value_error_while_processing_pair (filter (\<lambda>p. isl (parse_pair p)) ps))"
proof (induction ps arbitrary: data out)
  case Nil
  show ?case by simp
next
  case (Cons pair ps)
  show ?case
  proof (cases "parse_pair pair")
    case (Inl e)
    then show ?thesis by (simp add: Cons.IH)
  next
    case (Inr kn)
    obtain key n where kn: "kn = (key, n)" by (cases kn)
    show ?thesis
      by (simp add: Inr kn Cons.IH map_add_def fun_eq_iff split: option.splits)
  qed
qed

text \<open>
  C9. When the counters file is missing, \<^verbatim>\<open>read_data_config\<close> reports it, writes the
  file with the default content and returns \<^verbatim>\<open>{num_models: 0, num_nodes: 0}\<close>. When the
  file exists, every pair that is malformed (not exactly one \<^verbatim>\<open>=\<close>, or a value that is
  no integer) is skipped with one message on standard output that names the pair, in
  the order of the file, and the dictionary returned holds exactly the well-formed
  pairs, a later pair overriding an earlier one with the same key; nothing else of the
  state changes and no error is raised.
\<close>

theorem C9_read_data_config:
  "(data_config s = None \<longrightarrow>
      read_data_config s =
        ([''num_models'' \<mapsto> 0, ''num_nodes'' \<mapsto> 0],
         s\<lparr>stdout := stdout s @ [File_not_found_creating_defaults],
           data_config := Some ''num_models=0;num_nodes=0''\<rparr>)) \<and>
   (\<forall>raw. data_config s = Some raw \<longrightarrow>
      read_data_config s =
        (map_of (rev (map (\<lambda>p. projr (parse_pair p)) (filter (\<lambda>p. \<not> isl (parse_pair p))
                                  (split_on CHR '';'' (strip raw))))),
         s\<lparr>stdout := stdout s @ map Value_error_while_processing_pair
                        (filter (\<lambda>p. isl (parse_pair p)) (split_on CHR '';'' (strip raw)))\<rparr>))"
  by (simp add: read_data_config_def default_config_def read_pairs_result Let_def)

theorem C9_witness:
  "data_config (world [] None []) = None \<and>
   fst (read_data_config (world [] None [])) = [''num_models'' \<mapsto> 0, ''num_nodes'' \<mapsto> 0] \<and>
   data_config (world [] (Some ''num_models=3;bad;num_nodes=x;num_nodes= 7 '') []) =
     Some ''num_models=3;bad;num_nodes=x;num_nodes= 7 '' \<and>
   fst (read_data_config (world [] (Some ''num_models=3;bad;num_nodes=x;num_nodes= 7 '') [])) =
     [''num_models'' \<mapsto> 3, ''num_nodes'' \<mapsto> 7] \<and>
   stdout (snd (read_data_config
     (world [] (Some ''num_models=3;bad;num_nodes=x;num_nodes= 7 '') []))) =
     [Value_error_while_processing_pair ''bad'', Value_error_while_processing_pair ''num_nodes=x'']"
proof -
  let ?raw = "''num_models=3;bad;num_nodes=x;num_nodes= 7 ''"
  have n: "data_config (world [] None []) = None" by (simp add: world_def)
  have f: "data_config (world [] (Some ?raw) []) = Some ?raw" by (simp add: world_def)
  have p: "split_on CHR '';'' (strip ?raw) =
           [''num_models=3'', ''bad'', ''num_nodes=x'', ''num_nodes= 7'']"
    by (simp add: strip_def is_space_def)
  have q: "parse_pair ''num_models=3'' = Inr (''num_models'', 3)"
    "parse_pair ''bad'' = Inl ValueError"
    "parse_pair ''num_nodes=x'' = Inl ValueError"
    "parse_pair ''num_nodes= 7'' = Inr (''num_nodes'', 7)"
    by (simp_all add: parse_pair_def strip_def is_space_def int_of_str_def is_digit_def
        nat_of_digits_def)
  from C9_read_data_config[of "world [] None []"] n
  have 1: "fst (read_data_config (world [] None [])) =
           [''num_models'' \<mapsto> 0, ''num_nodes'' \<mapsto> 0]"
    by simp
  from C9_read_data_config[of "world [] (Some ?raw) []"] f
  have r: "read_data_config (world [] (Some ?raw) []) =
        (map_of (rev (map (\<lambda>p. projr (parse_pair p)) (filter (\<lambda>p. \<not> isl (parse_pair p))
                                  (split_on CHR '';'' (strip ?raw))))),
         (world [] (Some ?raw) [])\<lparr>stdout := stdout (world [] (Some ?raw) []) @
            map Value_error_while_processing_pair
              (filter (\<lambda>p. isl (parse_pair p)) (split_on CHR '';'' (strip ?raw)))\<rparr>)"
    by blast
  have 2: "fst (read_data_config (world [] (Some ?raw) [])) =
           [''num_models'' \<mapsto> 3, ''num_nodes'' \<mapsto> 7]"
    unfolding r p by (simp add: q fun_eq_iff)
  have 3: "stdout (snd (read_data_config (world [] (Some ?raw) []))) =
     [Value_error_while_processing_pair ''bad'', Value_error_while_processing_pair ''num_nodes=x'']"
    unfolding r p by (simp add: q world_def)
  from n 1 f 2 3 show ?thesis by blast
qed

section \<open>Writing the counters and reading them back\<close>

lemma digit_char:
  assumes "d < 10"
  shows "of_char (''0123456789'' ! d) = 48 + d" and "is_digit (''0123456789'' ! d)"
proof -
  from assms have "d = 0 \<or> d = 1 \<or> d = 2 \<or> d = 3 \<or> d = 4 \<or> d = 5 \<or> d = 6 \<or> d = 7 \<or>
                   d = 8 \<or> d = 9"
    by arith
  then show "of_char (''0123456789'' ! d) = 48 + d" by (elim disjE) simp_all
  then show "is_digit (''0123456789'' ! d)" using assms by (simp add: is_digit_def)
qed

lemma is_digit_not:
  assumes "is_digit c"
  shows "\<not> is_space c" "c \<noteq> CHR ''=''" "c \<noteq> CHR '';''" "c \<noteq> CHR ''_''" "c \<noteq> CHR ''-''"
    "c \<noteq> CHR ''+''"
  using assms by (auto simp: is_digit_def is_space_def)

lemma str_nat_digits: "str_nat n \<noteq> [] \<and> (\<forall>c \<in> set (str_nat n). is_digit c)"
proof (induction n rule: str_nat.induct)
  case (1 n)
  show ?case
  proof (cases "n < 10")
    case True
    then show ?thesis using digit_char(2)[of n] by (simp add: str_nat.simps[of n])
  next
    case False
    have "n mod 10 < 10" by simp
    from digit_char(2)[OF this] "1.IH"[OF False] False
    show ?thesis by (simp add: str_nat.simps[of n])
  qed
qed

lemma nat_of_digits_snoc:
  "nat_of_digits (ds @ [c]) = 10 * nat_of_digits ds + (of_char c - 48)"
  by (simp add: nat_of_digits_def)

lemma nat_of_digits_str_nat: "nat_of_digits (str_nat n) = n"
proof (induction n rule: str_nat.induct)
  case (1 n)
  show ?case
  proof (cases "n < 10")
    case True
    then show ?thesis
      using digit_char(1)[of n] by (simp add: str_nat.simps[of n] nat_of_digits_def)
  next
    case False
    have m: "n mod 10 < 10" by simp
    from digit_char(1)[OF m] "1.IH"[OF False] False
    show ?thesis by (simp add: str_nat.simps[of n] nat_of_digits_snoc)
  qed
qed

lemma digit_groups_digits:
  "ds \<noteq> [] \<Longrightarrow> \<forall>c \<in> set ds. is_digit c \<Longrightarrow> digit_groups ds"
proof (induction ds rule: digit_groups.induct)
  case 1
  then show ?case by simp
next
  case (2 c)
  then show ?case by simp
next
  case (3 c d r)
  from "3.prems" have "d \<noteq> CHR ''_''" using is_digit_not(4)[of d] by auto
  with 3 show ?case by simp
qed

lemma strip_id:
  assumes "xs \<noteq> []" "\<not> is_space (hd xs)" "\<not> is_space (last xs)"
  shows "strip xs = xs"
proof -
  from assms have a: "dropWhile is_space xs = xs" by (cases xs) simp_all
  from assms have "rev xs \<noteq> []" "\<not> is_space (hd (rev xs))" by (simp_all add: hd_rev)
  then have "dropWhile is_space (rev xs) = rev xs" by (cases "rev xs") simp_all
  with a show ?thesis by (simp add: strip_def)
qed

lemma strip_digits:
  assumes "ds \<noteq> []" "\<forall>c \<in> set ds. is_digit c"
  shows "strip ds = ds"
proof -
  from assms have "is_digit (hd ds)" "is_digit (last ds)" by simp_all
  then show ?thesis using assms(1) by (intro strip_id) (simp_all add: is_digit_not(1))
qed

lemma strip_str_int: "strip (str_int i) = str_int i"
proof (cases "i < 0")
  case False
  then show ?thesis using str_nat_digits[of "nat i"] by (simp add: str_int_def strip_digits)
next
  case True
  let ?ds = "str_nat (nat (- i))"
  from str_nat_digits[of "nat (- i)"] have d: "?ds \<noteq> []" "\<forall>c \<in> set ?ds. is_digit c" by simp_all
  then have "is_digit (last ?ds)" by simp
  then have "\<not> is_space (last (CHR ''-'' # ?ds))" using d(1) by (simp add: is_digit_not(1))
  moreover have "\<not> is_space (hd (CHR ''-'' # ?ds))" by (simp add: is_space_def)
  ultimately have "strip (CHR ''-'' # ?ds) = CHR ''-'' # ?ds" by (intro strip_id) simp_all
  with True show ?thesis by (simp add: str_int_def)
qed

lemma filter_digits: "\<forall>c \<in> set ds. is_digit c \<Longrightarrow> filter (\<lambda>c. c \<noteq> CHR ''_'') ds = ds"
  using is_digit_not(4) by (induction ds) auto

lemma int_of_str_str_int: "int_of_str (str_int i) = Some i"
proof (cases "i < 0")
  case False
  let ?ds = "str_nat (nat i)"
  from str_nat_digits[of "nat i"] have d: "?ds \<noteq> []" "\<forall>c \<in> set ?ds. is_digit c" by simp_all
  then obtain c r where cr: "?ds = c # r" by (cases ?ds) auto
  with d have "is_digit c" by simp
  then have c: "c \<noteq> CHR ''-''" "c \<noteq> CHR ''+''" using is_digit_not[of c] by simp_all
  have s: "strip (str_int i) = ?ds" using strip_str_int[of i] False by (simp add: str_int_def)
  have "int_of_str (str_int i) = Some (int (nat_of_digits ?ds))"
    unfolding int_of_str_def s using c digit_groups_digits[OF d] filter_digits[OF d(2)]
    by (simp add: cr)
  then show ?thesis using False by (simp add: nat_of_digits_str_nat)
next
  case True
  let ?ds = "str_nat (nat (- i))"
  from str_nat_digits[of "nat (- i)"] have d: "?ds \<noteq> []" "\<forall>c \<in> set ?ds. is_digit c" by simp_all
  have s: "strip (str_int i) = CHR ''-'' # ?ds"
    using strip_str_int[of i] True by (simp add: str_int_def)
  have "int_of_str (str_int i) = Some (- int (nat_of_digits ?ds))"
    unfolding int_of_str_def s using digit_groups_digits[OF d] filter_digits[OF d(2)]
    by simp
  then show ?thesis using True by (simp add: nat_of_digits_str_nat)
qed

lemma str_int_chars:
  "CHR ''='' \<notin> set (str_int i)" "CHR '';'' \<notin> set (str_int i)" "str_int i \<noteq> []"
  "\<not> is_space (last (str_int i))"
proof -
  have d: "str_nat n \<noteq> [] \<and> (\<forall>c \<in> set (str_nat n). is_digit c)" for n by (rule str_nat_digits)
  show "CHR ''='' \<notin> set (str_int i)" using d is_digit_not(2) by (auto simp: str_int_def)
  show "CHR '';'' \<notin> set (str_int i)" using d is_digit_not(3) by (auto simp: str_int_def)
  show "str_int i \<noteq> []" using d by (simp add: str_int_def)
  have "is_digit (last (str_nat n))" for n using d[of n] by simp
  then show "\<not> is_space (last (str_int i))" using d by (simp add: str_int_def is_digit_not(1))
qed

lemma split_on_none: "c \<notin> set xs \<Longrightarrow> split_on c xs = [xs]"
  by (induction xs) auto

lemma split_on_append: "c \<notin> set xs \<Longrightarrow> split_on c (xs @ c # ys) = xs # split_on c ys"
  by (induction xs) auto

lemma parse_pair_written:
  assumes "CHR ''='' \<notin> set key" "strip key = key"
  shows "parse_pair (key @ CHR ''='' # str_int i) = Inr (key, i)"
proof -
  have "split_on CHR ''='' (key @ CHR ''='' # str_int i) = [key, str_int i]"
    using assms(1) str_int_chars(1)[of i] by (simp add: split_on_append split_on_none)
  then show ?thesis
    by (simp add: parse_pair_def strip_str_int int_of_str_str_int assms(2))
qed

lemma read_written:
  assumes "data_config s =
     Some (''num_models='' @ str_int m @ '';'' @ ''num_nodes='' @ str_int n)"
  shows "read_data_config s = ([''num_models'' \<mapsto> m, ''num_nodes'' \<mapsto> n], s)"
proof -
  let ?a = "''num_models'' @ CHR ''='' # str_int m"
  let ?b = "''num_nodes'' @ CHR ''='' # str_int n"
  let ?raw = "''num_models='' @ str_int m @ '';'' @ ''num_nodes='' @ str_int n"
  have raw: "?raw = ?a @ CHR '';'' # ?b" by simp
  have "strip ?raw = ?raw"
    using str_int_chars(3,4)[of n] by (intro strip_id) (simp_all add: is_space_def)
  moreover have "split_on CHR '';'' (?a @ CHR '';'' # ?b) = [?a, ?b]"
    using str_int_chars(2)[of m] str_int_chars(2)[of n]
    by (subst split_on_append) (simp_all add: split_on_none)
  moreover have "parse_pair ?a = Inr (''num_models'', m)"
    by (rule parse_pair_written) (simp_all add: strip_def is_space_def)
  moreover have "parse_pair ?b = Inr (''num_nodes'', n)"
    by (rule parse_pair_written) (simp_all add: strip_def is_space_def)
  ultimately show ?thesis
    unfolding read_data_config_def assms raw by (simp add: Let_def)
qed

section \<open>Node identifiers across a run\<close>

lemma read_data_config_frame:
  "fst (read_data_config (s\<lparr>graph := g\<rparr>)) = fst (read_data_config s)"
  "graph (snd (read_data_config s)) = graph s"
  "model_files (snd (read_data_config s)) = model_files s"
  by (simp_all add: read_data_config_def split_beta Let_def split: option.splits)

lemma reset_ok:
  assumes "fst (read_data_config s) ''num_nodes'' = Some N"
    and "fst (read_data_config s) ''num_models'' = Some M"
  shows "\<exists>s1. reset s = (Inr (), s1) \<and> nodes (graph s1) = [] \<and> edges (graph s1) = [] \<and>
              node_counter s1 = N \<and> model_counter s1 = M \<and> model_files s1 = model_files s"
proof -
  let ?r = "read_data_config (s\<lparr>graph := DiGraph\<rparr>)"
  have f: "fst ?r ''num_nodes'' = Some N" "fst ?r ''num_models'' = Some M"
    using assms by (simp_all add: read_data_config_frame(1))
  have g: "graph (snd ?r) = DiGraph" "model_files (snd ?r) = model_files s"
    by (simp_all add: read_data_config_frame(2,3))
  show ?thesis
    using f g by (simp add: reset_def split_beta Let_def DiGraph_def)
qed

lemma upto_append:
  assumes "a \<le> b + 1" "b \<le> c"
  shows "[a..b] @ [b + 1..c] = [a..(c::int)]"
proof (cases "b = c")
  case True
  then show ?thesis by simp
next
  case False
  with assms have "b + 1 \<le> c" by simp
  from upto_split1[OF assms(1) this] show ?thesis by simp
qed

lemma create_node_counter:
  "fst (create_node ty g pr s) = node_counter s + 1"
  "node_counter (snd (create_node ty g pr s)) = node_counter s + 1"
proof -
  define r1 where "r1 = (case g of None \<Rightarrow> (if ty = 2 then (0, s) else random_choice_1_2 s)
                                  | Some x \<Rightarrow> (x, s))"
  have c1: "node_counter (snd r1) = node_counter s"
    using random_choice_state[of s] by (auto simp: r1_def split: option.splits)
  define r2 where "r2 = (if ty = 2 then biased_random_low_number (snd r1) else (pr, snd r1))"
  have c2: "node_counter (snd r2) = node_counter s"
    using biased_state[of "snd r1"] c1 by (auto simp: r2_def)
  have "create_node ty g pr s =
          (node_counter (snd r2) + 1,
           (snd r2)\<lparr>graph := add_node (node_counter (snd r2) + 1) ty (fst r1) (fst r2)
                                (graph (snd r2)),
                    node_counter := node_counter (snd r2) + 1\<rparr>)"
    by (simp add: create_node_def r1_def r2_def split_beta Let_def)
  then show "fst (create_node ty g pr s) = node_counter s + 1"
    "node_counter (snd (create_node ty g pr s)) = node_counter s + 1"
    using c2 by simp_all
qed

lemma graphs_loop_ids:
  assumes "fst (read_data_config s) ''num_nodes'' = Some N"
    and "fst (read_data_config s) ''num_models'' = Some M"
  shows "\<exists>new C. model_files (snd (graphs_loop k cfg s)) = model_files s @ new \<and> N \<le> C \<and>
           concat (map (\<lambda>(m, g). node_ids g) new) @
             (case fst (graphs_loop k cfg s) of
                Inl e \<Rightarrow> node_ids (graph (snd (graphs_loop k cfg s))) | Inr u \<Rightarrow> []) = [N + 1..C] \<and>
           fst (graphs_loop k cfg s) \<noteq> Inl KeyError \<and>
           (fst (graphs_loop k cfg s) = Inr () \<longrightarrow>
              length new = k \<and>
              fst (read_data_config (snd (graphs_loop k cfg s))) ''num_nodes'' = Some C)"
  using assms
proof (induction k arbitrary: s N M)
  case 0
  then show ?case by (intro exI[of _ "[]"] exI[of _ N]) simp
next
  case (Suc k)
  from reset_ok[OF Suc.prems] obtain s1 where
    r: "reset s = (Inr (), s1)" and e: "nodes (graph s1) = []" "edges (graph s1) = []"
    and c: "node_counter s1 = N" "model_counter s1 = M" and mf: "model_files s1 = model_files s"
    by blast
  let ?g = "generate_subgraph cfg s1"
  from generate_subgraph_inv(1)[OF e, of cfg] c
  have "struct_inv N (snd ?g)" by simp
  then have ids: "node_ids (graph (snd ?g)) = [N + 1..node_counter (snd ?g)]"
    and le: "N + 1 \<le> node_counter (snd ?g)"
    by (simp_all add: struct_inv_def node_ids_def)
  from generate_subgraph_inv(3)[OF e, of cfg]
  have nk: "fst ?g \<noteq> Inl KeyError" by (auto simp: res_ok_def)
  show ?case
  proof (cases "fst ?g")
    case (Inl x)
    then have l: "graphs_loop (Suc k) cfg s = (Inl x, snd ?g)"
      by (cases "generate_subgraph cfg s1") (simp add: r)
    from Inl have "fst ?g \<noteq> Inr ()" by simp
    from generate_subgraph_failed(1)[OF e this] mf
    have "model_files (snd ?g) = model_files s" by simp
    then show ?thesis
      unfolding l using ids le nk Inl
      by (intro exI[of _ "[]"] exI[of _ "node_counter (snd ?g)"]) simp
  next
    case (Inr u)
    then have ok: "fst ?g = Inr ()" by simp
    then have l: "graphs_loop (Suc k) cfg s = graphs_loop k cfg (snd ?g)"
      by (cases "generate_subgraph cfg s1") (simp add: r)
    from generate_subgraph_finished[OF e ok] obtain s2 where
      s2: "snd ?g = finish s2" "model_files s2 = model_files s1" "model_counter s2 = model_counter s1"
      by blast
    have mf2: "model_files (snd ?g) = model_files s @ [(M + 1, graph (snd ?g))]"
      by (simp add: s2 finish_graph(6) mf c)
    have "data_config (snd ?g) =
            Some (''num_models='' @ str_int (M + 1) @ '';'' @
                  ''num_nodes='' @ str_int (node_counter (snd ?g)))"
      by (simp add: s2 finish_graph(7) finish_graph(3) c)
    from read_written[OF this]
    have p: "fst (read_data_config (snd ?g)) ''num_nodes'' = Some (node_counter (snd ?g))"
      "fst (read_data_config (snd ?g)) ''num_models'' = Some (M + 1)"
      by simp_all
    let ?out = "graphs_loop k cfg (snd ?g)"
    from Suc.IH[OF p] obtain new C where
      n: "model_files (snd ?out) = model_files (snd ?g) @ new"
      and C: "node_counter (snd ?g) \<le> C"
      and L: "concat (map (\<lambda>(m, g). node_ids g) new) @
             (case fst ?out of Inl e \<Rightarrow> node_ids (graph (snd ?out)) | Inr u \<Rightarrow> []) =
             [node_counter (snd ?g) + 1..C]"
      and k: "fst ?out \<noteq> Inl KeyError"
      and f: "fst ?out = Inr () \<longrightarrow>
              length new = k \<and> fst (read_data_config (snd ?out)) ''num_nodes'' = Some C"
      by blast
    have app: "[N + 1..node_counter (snd ?g)] @ [node_counter (snd ?g) + 1..C] = [N + 1..C]"
      using le C by (intro upto_append) simp_all
    have "concat (map (\<lambda>(m, g). node_ids g) ((M + 1, graph (snd ?g)) # new)) @
             (case fst ?out of Inl e \<Rightarrow> node_ids (graph (snd ?out)) | Inr u \<Rightarrow> []) = [N + 1..C]"
      using L app by (simp add: ids)
    moreover have "model_files (snd ?out) = model_files s @ ((M + 1, graph (snd ?g)) # new)"
      by (simp add: n mf2)
    moreover have "N \<le> C" using le C by simp
    moreover have "fst ?out = Inr () \<longrightarrow>
              length ((M + 1, graph (snd ?g)) # new) = Suc k \<and>
              fst (read_data_config (snd ?out)) ''num_nodes'' = Some C"
      using f by simp
    ultimately show ?thesis unfolding l using k by blast
  qed
qed

lemma upto_length_eq:
  assumes "L = [N + 1..C]" "N \<le> C"
  shows "L = [N + 1..N + int (length L)]" "C = N + int (length L)"
proof -
  from assms show c: "C = N + int (length L)" by simp
  with assms(1) show "L = [N + 1..N + int (length L)]" by simp
qed

text \<open>
  C7. In a run that finds the persisted counters \<open>N\<close> (nodes) and some number of models,
  the identifiers assigned across the run, in creation order, are the consecutive
  integers \<open>N + 1, \<dots>, N + n\<close>, where \<open>n\<close> is the number of nodes created: strictly
  increasing, without gaps or repeats, also across the graphs of the run and also when
  the run is aborted by an error. \<^verbatim>\<open>create_node\<close> returns the counter plus 1 and
  increments the counter by exactly 1. The counters file is always read back, and
  when the run completes it has exported \<^verbatim>\<open>num_graphs\<close> graphs and the persisted counter
  is \<open>N + n\<close>.
\<close>

theorem C7_consecutive_node_ids:
  assumes "fst (read_data_config s) ''num_nodes'' = Some N"
    and "fst (read_data_config s) ''num_models'' = Some M"
  shows "run_node_ids s (FaultTreeDatasetGenerator cfg s) =
           [N + 1..N + int (length (run_node_ids s (FaultTreeDatasetGenerator cfg s)))] \<and>
         (\<forall>ty g pr w. fst (create_node ty g pr w) = node_counter w + 1 \<and>
                      node_counter (snd (create_node ty g pr w)) = node_counter w + 1) \<and>
         fst (FaultTreeDatasetGenerator cfg s) \<noteq> Inl KeyError \<and>
         (fst (FaultTreeDatasetGenerator cfg s) = Inr () \<longrightarrow>
            length (model_files (snd (FaultTreeDatasetGenerator cfg s))) =
              length (model_files s) + nat (num_graphs cfg) \<and>
            fst (read_data_config (snd (FaultTreeDatasetGenerator cfg s))) ''num_nodes'' =
              Some (N + int (length (run_node_ids s (FaultTreeDatasetGenerator cfg s)))))"
proof -
  let ?k = "nat (num_graphs cfg)"
  let ?out = "graphs_loop ?k cfg s"
  from graphs_loop_ids[OF assms, of ?k cfg] obtain new C where
    n: "model_files (snd ?out) = model_files s @ new"
    and C: "N \<le> C"
    and L: "concat (map (\<lambda>(m, g). node_ids g) new) @
             (case fst ?out of Inl e \<Rightarrow> node_ids (graph (snd ?out)) | Inr u \<Rightarrow> []) = [N + 1..C]"
    and k: "fst ?out \<noteq> Inl KeyError"
    and f: "fst ?out = Inr () \<longrightarrow>
              length new = ?k \<and> fst (read_data_config (snd ?out)) ''num_nodes'' = Some C"
    by blast
  have R: "run_node_ids s ?out = [N + 1..C]"
    unfolding run_node_ids_def n using L by simp
  note u = upto_length_eq[OF R C]
  have 1: "run_node_ids s ?out = [N + 1..N + int (length (run_node_ids s ?out))]" by (rule u(1))
  have 2: "fst ?out = Inr () \<longrightarrow>
            length (model_files (snd ?out)) = length (model_files s) + ?k \<and>
            fst (read_data_config (snd ?out)) ''num_nodes'' =
              Some (N + int (length (run_node_ids s ?out)))"
    using f u(2) by (simp add: n)
  from 1 2 k show ?thesis
    unfolding FaultTreeDatasetGenerator_def by (simp add: create_node_counter)
qed

theorem C7_witness:
  "fst (read_data_config (world [] None [])) ''num_nodes'' = Some 0 \<and>
   fst (read_data_config (world [] None [])) ''num_models'' = Some 0 \<and>
   run_node_ids (world [] None [])
     (FaultTreeDatasetGenerator (cfg_2_2_1\<lparr>num_graphs := 2\<rparr>) (world [] None [])) =
     [1, 2, 3, 4, 5, 6] \<and>
   run_node_ids (world [] None [])
     (FaultTreeDatasetGenerator (cfg_2_2_1\<lparr>num_graphs := 2\<rparr>) (world [] None [])) =
     [0 + 1..0 + 6]"
proof -
  let ?w = "world [] None []" and ?cfg = "cfg_2_2_1\<lparr>num_graphs := 2\<rparr>"
  have h: "fst (read_data_config ?w) ''num_nodes'' = Some 0"
    "fst (read_data_config ?w) ''num_models'' = Some 0"
    by (simp_all add: world_def read_data_config_def)
  have v: "run_node_ids ?w (FaultTreeDatasetGenerator ?cfg ?w) = [1, 2, 3, 4, 5, 6]"
    by (simp add: run_node_ids_def node_ids_def cfg_2_2_1_def run_defs file_defs final_defs
        rand_defs graph_defs build_defs loop_simps Let_def strip_def is_space_def parse_pair_def
        int_of_str_def is_digit_def nat_of_digits_def str_int_def str_nat.simps)
  from C7_consecutive_node_ids[OF h, of ?cfg]
  have "run_node_ids ?w (FaultTreeDatasetGenerator ?cfg ?w) =
        [0 + 1..0 + int (length (run_node_ids ?w (FaultTreeDatasetGenerator ?cfg ?w)))]"
    by (rule conjunct1)
  then have "run_node_ids ?w (FaultTreeDatasetGenerator ?cfg ?w) = [0 + 1..0 + 6]"
    unfolding v by simp
  with h v show ?thesis by blast
qed

end
